theory Spec2Isabelle
  imports Complex_Main "HOL-Library.Word"
begin

section \<open>Numbers of the program\<close>

text \<open>
  A C++ \<open>double\<close> is modelled by its special values and, for a finite value, the real
  number it stands for. Arithmetic follows the IEEE rules for NaN and the infinities;
  rounding to 53 bits and the sign of zero are not modelled.
\<close>

datatype double = NaN | NInf | Fin real | PInf

text \<open>\<open>std::isfinite\<close> and \<open>std::isnan\<close>.\<close>

fun isfinite :: "double \<Rightarrow> bool" where
  "isfinite (Fin x) = True"
| "isfinite NaN = False"
| "isfinite NInf = False"
| "isfinite PInf = False"

fun isnan :: "double \<Rightarrow> bool" where
  "isnan NaN = True"
| "isnan NInf = False"
| "isnan (Fin x) = False"
| "isnan PInf = False"

text \<open>
  The comparisons \<open>a < b\<close> and \<open>a <= b\<close> of two doubles are false as soon as one of
  them is NaN; \<open>a > b\<close> and \<open>a >= b\<close> are these with the operands exchanged.
\<close>

fun dlt :: "double \<Rightarrow> double \<Rightarrow> bool" where
  "dlt NaN b = False"
| "dlt NInf NaN = False"
| "dlt NInf NInf = False"
| "dlt NInf (Fin y) = True"
| "dlt NInf PInf = True"
| "dlt (Fin x) NaN = False"
| "dlt (Fin x) NInf = False"
| "dlt (Fin x) (Fin y) = (x < y)"
| "dlt (Fin x) PInf = True"
| "dlt PInf b = False"

fun dle :: "double \<Rightarrow> double \<Rightarrow> bool" where
  "dle NaN b = False"
| "dle NInf NaN = False"
| "dle NInf NInf = True"
| "dle NInf (Fin y) = True"
| "dle NInf PInf = True"
| "dle (Fin x) NaN = False"
| "dle (Fin x) NInf = False"
| "dle (Fin x) (Fin y) = (x \<le> y)"
| "dle (Fin x) PInf = True"
| "dle PInf NaN = False"
| "dle PInf NInf = False"
| "dle PInf (Fin y) = False"
| "dle PInf PInf = True"

definition dgt :: "double \<Rightarrow> double \<Rightarrow> bool" where
  "dgt a b = dlt b a"

definition dge :: "double \<Rightarrow> double \<Rightarrow> bool" where
  "dge a b = dle b a"

text \<open>Negation, addition and subtraction; the sum of the two infinities is NaN.\<close>

fun dneg :: "double \<Rightarrow> double" where
  "dneg NaN = NaN"
| "dneg NInf = PInf"
| "dneg (Fin x) = Fin (- x)"
| "dneg PInf = NInf"

fun dadd :: "double \<Rightarrow> double \<Rightarrow> double" where
  "dadd NaN b = NaN"
| "dadd NInf NaN = NaN"
| "dadd NInf NInf = NInf"
| "dadd NInf (Fin y) = NInf"
| "dadd NInf PInf = NaN"
| "dadd (Fin x) NaN = NaN"
| "dadd (Fin x) NInf = NInf"
| "dadd (Fin x) (Fin y) = Fin (x + y)"
| "dadd (Fin x) PInf = PInf"
| "dadd PInf NaN = NaN"
| "dadd PInf NInf = NaN"
| "dadd PInf (Fin y) = PInf"
| "dadd PInf PInf = PInf"

definition dsub :: "double \<Rightarrow> double \<Rightarrow> double" where
  "dsub a b = dadd a (dneg b)"

text \<open>
  The sign of a double that is not NaN and the infinity of a given sign, for the
  products with an infinite factor: zero times an infinity is NaN.
\<close>

fun dsgn :: "double \<Rightarrow> int" where
  "dsgn NaN = 0"
| "dsgn NInf = - 1"
| "dsgn (Fin x) = (if x < 0 then - 1 else if x = 0 then 0 else 1)"
| "dsgn PInf = 1"

definition inf_of_sign :: "int \<Rightarrow> double" where
  "inf_of_sign s = (if s < 0 then NInf else if s = 0 then NaN else PInf)"

fun dmul :: "double \<Rightarrow> double \<Rightarrow> double" where
  "dmul NaN b = NaN"
| "dmul (Fin x) NaN = NaN"
| "dmul NInf NaN = NaN"
| "dmul PInf NaN = NaN"
| "dmul (Fin x) (Fin y) = Fin (x * y)"
| "dmul a b = inf_of_sign (dsgn a * dsgn b)"

text \<open>
  Division: a finite value over an infinity is zero, an infinity over an infinity and
  zero over zero are NaN, a finite non-zero value over zero is the infinity of the
  dividend's sign (every zero is read as +0).
\<close>

fun ddiv :: "double \<Rightarrow> double \<Rightarrow> double" where
  "ddiv NaN b = NaN"
| "ddiv (Fin x) NaN = NaN"
| "ddiv NInf NaN = NaN"
| "ddiv PInf NaN = NaN"
| "ddiv (Fin x) (Fin y) = (if y = 0 then inf_of_sign (dsgn (Fin x)) else Fin (x / y))"
| "ddiv (Fin x) NInf = Fin 0"
| "ddiv (Fin x) PInf = Fin 0"
| "ddiv NInf (Fin y) = (if y < 0 then PInf else NInf)"
| "ddiv PInf (Fin y) = (if y < 0 then NInf else PInf)"
| "ddiv NInf NInf = NaN"
| "ddiv NInf PInf = NaN"
| "ddiv PInf NInf = NaN"
| "ddiv PInf PInf = NaN"

text \<open>\<open>std::round\<close>: to the nearest integer, halves away from zero.\<close>

definition round_half_away :: "real \<Rightarrow> real" where
  "round_half_away x =
     (if 0 \<le> x then of_int \<lfloor>x + 1 / 2\<rfloor> else - of_int \<lfloor>- x + 1 / 2\<rfloor>)"

fun dround :: "double \<Rightarrow> double" where
  "dround (Fin x) = Fin (round_half_away x)"
| "dround NaN = NaN"
| "dround NInf = NInf"
| "dround PInf = PInf"

text \<open>\<open>std::exp\<close> and \<open>std::log\<close> on doubles.\<close>

fun dexp :: "double \<Rightarrow> double" where
  "dexp NaN = NaN"
| "dexp NInf = Fin 0"
| "dexp (Fin x) = Fin (exp x)"
| "dexp PInf = PInf"

fun dlog :: "double \<Rightarrow> double" where
  "dlog NaN = NaN"
| "dlog NInf = NaN"
| "dlog (Fin x) = (if x < 0 then NaN else if x = 0 then NInf else Fin (ln x))"
| "dlog PInf = PInf"

text \<open>\<open>std::max(a, b)\<close>, which is \<open>(a < b) ? b : a\<close>.\<close>

definition dmax :: "double \<Rightarrow> double \<Rightarrow> double" where
  "dmax a b = (if dlt a b then b else a)"

text \<open>
  A C++ \<open>int\<close> is a 32-bit word read in two's complement: \<open>sint\<close> gives its value, and
  \<open>+\<close> and \<open>-\<close> wrap around.
\<close>

type_synonym cint = "32 word"

text \<open>
  The conversions between \<open>int\<close> and \<open>double\<close>: \<open>static_cast<double>\<close> is exact, and
  \<open>static_cast<int>\<close> truncates towards zero. The latter is undefined for NaN and the
  infinities in C++; the model returns the smallest \<open>int\<close> there, as the x86 conversion
  does.
\<close>

definition double_of_int :: "cint \<Rightarrow> double" where
  "double_of_int q = Fin (real_of_int (sint q))"

fun int_of_double :: "double \<Rightarrow> cint" where
  "int_of_double (Fin x) = word_of_int (if 0 \<le> x then \<lfloor>x\<rfloor> else \<lceil>x\<rceil>)"
| "int_of_double NaN = - 2147483648"
| "int_of_double NInf = - 2147483648"
| "int_of_double PInf = - 2147483648"

section \<open>Events\<close>

text \<open>The enumerations \<open>Side\<close> and \<open>EventType\<close>.\<close>

datatype Side = Bid | Ask

datatype EventType = Add | Cancel | Market

text \<open>The fields of \<open>struct Event\<close> carry the prefix \<open>ev_\<close>.\<close>

record Event =
  ev_t :: double
  ev_type :: EventType
  ev_side :: Side
  ev_price :: double
  ev_quantity :: cint

text \<open>The brace initialiser \<open>{t, type, side, price, quantity}\<close> of an \<open>Event\<close> with finite fields.\<close>

definition mk_event :: "real \<Rightarrow> EventType \<Rightarrow> Side \<Rightarrow> real \<Rightarrow> int \<Rightarrow> Event" where
  "mk_event t ty s p q =
     \<lparr>ev_t = Fin t, ev_type = ty, ev_side = s, ev_price = Fin p, ev_quantity = word_of_int q\<rparr>"

section \<open>The order book\<close>

text \<open>
  One side of the book, a \<open>std::map<double, int>\<close>, is the list of its entries in the
  order of iteration (ascending keys). The map only ever compares keys with \<open><\<close>.
\<close>

type_synonym side_map = "(double \<times> cint) list"

text \<open>
  The members \<open>tick_size_\<close>, \<open>bids_\<close> and \<open>asks_\<close> of \<open>OrderBook\<close>, and the structs
  \<open>TopOfBook\<close> and \<open>Metrics\<close> with their optional fields.
\<close>

record OrderBook =
  tick_size :: double
  bids :: side_map
  asks :: side_map

record TopOfBook =
  best_bid_price :: "double option"
  best_bid_qty :: "cint option"
  best_ask_price :: "double option"
  best_ask_qty :: "cint option"

record Metrics =
  mid :: "double option"
  spread :: "double option"
  imbalance_top1 :: "double option"

text \<open>The constructor: an invalid tick size falls back to 0.1; both sides start empty.\<close>

definition new_OrderBook :: "double \<Rightarrow> OrderBook" where
  "new_OrderBook ts =
     \<lparr>tick_size = (if \<not> dgt ts (Fin 0) \<or> \<not> isfinite ts then Fin (1 / 10) else ts),
      bids = [], asks = []\<rparr>"

text \<open>\<open>round_to_tick\<close>: \<open>std::round(price / tick_size_) * tick_size_\<close>.\<close>

definition round_to_tick :: "OrderBook \<Rightarrow> double \<Rightarrow> double" where
  "round_to_tick b p = dmul (dround (ddiv p (tick_size b))) (tick_size b)"

text \<open>
  \<open>side_map[price] += qty\<close>: the entry is created with 0 when no key is equivalent to
  \<open>price\<close>, and the addition is the machine's.
\<close>

fun index_add :: "side_map \<Rightarrow> double \<Rightarrow> cint \<Rightarrow> side_map" where
  "index_add [] p q = [(p, 0 + q)]"
| "index_add ((k, v) # m) p q =
     (if dlt k p then (k, v) # index_add m p q
      else if dlt p k then (p, 0 + q) # (k, v) # m
      else (k, v + q) # m)"

definition add_level :: "side_map \<Rightarrow> double \<Rightarrow> cint \<Rightarrow> side_map" where
  "add_level side_map p qty = (if sint qty \<le> 0 then side_map else index_add side_map p qty)"

text \<open>\<open>find\<close>, then \<open>it->second -= qty\<close> and the erasure of a level that is not positive.\<close>

fun find_sub :: "side_map \<Rightarrow> double \<Rightarrow> cint \<Rightarrow> side_map" where
  "find_sub [] p q = []"
| "find_sub ((k, v) # m) p q =
     (if dlt k p then (k, v) # find_sub m p q
      else if dlt p k then (k, v) # m
      else if sint (v - q) \<le> 0 then m
      else (k, v - q) # m)"

definition remove_level_qty :: "side_map \<Rightarrow> double \<Rightarrow> cint \<Rightarrow> side_map" where
  "remove_level_qty side_map p qty = (if sint qty \<le> 0 then side_map else find_sub side_map p qty)"

text \<open>The loop of \<open>consume_best_ask\<close> works on \<open>asks.begin()\<close>, the first entry.\<close>

fun consume_best_ask :: "side_map \<Rightarrow> cint \<Rightarrow> side_map" where
  "consume_best_ask [] qty = []"
| "consume_best_ask ((p, available) # m) qty =
     (if sint qty \<le> 0 then (p, available) # m
      else if sint qty < sint available then (p, available - qty) # m
      else consume_best_ask m (qty - available))"

text \<open>The loop of \<open>consume_best_bid\<close> works on \<open>std::prev(bids.end())\<close>, the last entry.\<close>

function consume_best_bid :: "side_map \<Rightarrow> cint \<Rightarrow> side_map" where
  "consume_best_bid m qty =
     (if 0 < sint qty \<and> m \<noteq> [] then
        (if sint qty < sint (snd (last m))
         then butlast m @ [(fst (last m), snd (last m) - qty)]
         else consume_best_bid (butlast m) (qty - snd (last m)))
      else m)"
  by pat_completeness auto
termination
  by (relation "measure (\<lambda>(m, qty). length m)") auto

declare consume_best_bid.simps [simp del]

text \<open>\<open>OrderBook::top\<close>: the last bid entry and the first ask entry, when there are any.\<close>

definition book_top :: "OrderBook \<Rightarrow> TopOfBook" where
  "book_top b =
     \<lparr>best_bid_price = (if bids b \<noteq> [] then Some (fst (last (bids b))) else None),
      best_bid_qty = (if bids b \<noteq> [] then Some (snd (last (bids b))) else None),
      best_ask_price = (if asks b \<noteq> [] then Some (fst (hd (asks b))) else None),
      best_ask_qty = (if asks b \<noteq> [] then Some (snd (hd (asks b))) else None)\<rparr>"

text \<open>
  \<open>OrderBook::apply\<close> returns its flag together with the book it leaves. An empty side
  is the NaN that the code puts in \<open>best_bid\<close> and \<open>best_ask\<close>.
\<close>

definition book_apply :: "OrderBook \<Rightarrow> Event \<Rightarrow> bool \<times> OrderBook" where
  "book_apply b e =
     (if \<not> isfinite (ev_t e) \<or> sint (ev_quantity e) \<le> 0 then (False, b)
      else
        let tob = book_top b;
            best_bid = (case best_bid_price tob of Some x \<Rightarrow> x | None \<Rightarrow> NaN);
            best_ask = (case best_ask_price tob of Some x \<Rightarrow> x | None \<Rightarrow> NaN)
        in
        (case ev_type e of
           Add \<Rightarrow>
             if \<not> isfinite (ev_price e) \<or> dle (ev_price e) (Fin 0) then (False, b)
             else
               let px = round_to_tick b (ev_price e) in
               (case ev_side e of
                  Bid \<Rightarrow>
                    if \<not> isnan best_ask \<and> dge px best_ask
                    then (True, b\<lparr>asks := consume_best_ask (asks b) (ev_quantity e)\<rparr>)
                    else (True, b\<lparr>bids := add_level (bids b) px (ev_quantity e)\<rparr>)
                | Ask \<Rightarrow>
                    if \<not> isnan best_bid \<and> dle px best_bid
                    then (True, b\<lparr>bids := consume_best_bid (bids b) (ev_quantity e)\<rparr>)
                    else (True, b\<lparr>asks := add_level (asks b) px (ev_quantity e)\<rparr>))
         | Cancel \<Rightarrow>
             if \<not> isfinite (ev_price e) \<or> dle (ev_price e) (Fin 0) then (False, b)
             else
               let px = round_to_tick b (ev_price e) in
               (case ev_side e of
                  Bid \<Rightarrow> (True, b\<lparr>bids := remove_level_qty (bids b) px (ev_quantity e)\<rparr>)
                | Ask \<Rightarrow> (True, b\<lparr>asks := remove_level_qty (asks b) px (ev_quantity e)\<rparr>))
         | Market \<Rightarrow>
             (case ev_side e of
                Bid \<Rightarrow> (True, b\<lparr>asks := consume_best_ask (asks b) (ev_quantity e)\<rparr>)
              | Ask \<Rightarrow> (True, b\<lparr>bids := consume_best_bid (bids b) (ev_quantity e)\<rparr>))))"

text \<open>\<open>OrderBook::metrics\<close>.\<close>

definition metrics :: "OrderBook \<Rightarrow> Metrics" where
  "metrics b =
     (let tob = book_top b in
      case (best_bid_price tob, best_ask_price tob) of
        (Some bid, Some ask) \<Rightarrow>
          let qb = (case best_bid_qty tob of Some q \<Rightarrow> double_of_int q | None \<Rightarrow> Fin 0);
              qa = (case best_ask_qty tob of Some q \<Rightarrow> double_of_int q | None \<Rightarrow> Fin 0);
              denom = dadd qb qa
          in \<lparr>mid = Some (dmul (Fin (1 / 2)) (dadd bid ask)),
              spread = Some (dsub ask bid),
              imbalance_top1 = (if dgt denom (Fin 0) then Some (ddiv (dsub qb qa) denom) else None)\<rparr>
      | _ \<Rightarrow> \<lparr>mid = None, spread = None, imbalance_top1 = None\<rparr>)"

section \<open>The Hawkes engine\<close>

text \<open>
  The standard library's random numbers are a parameter of the model: \<open>'g\<close> is the state
  of a \<open>std::mt19937\<close>, \<open>uniform01\<close> is \<open>std::uniform_real_distribution<double>(0.0, 1.0)\<close>
  applied to it and \<open>uniform_int a b\<close> is \<open>std::uniform_int_distribution<int>(a, b)\<close>; each
  returns its value and the generator's next state.
\<close>

record 'g stdlib =
  uniform01 :: "'g \<Rightarrow> double \<times> 'g"
  uniform_int :: "cint \<Rightarrow> cint \<Rightarrow> 'g \<Rightarrow> cint \<times> 'g"

text \<open>The exception \<open>std::invalid_argument\<close> with its message.\<close>

datatype error = invalid_argument string

text \<open>
  The members of \<open>HawkesMultivariateProcess\<close>, with the prefix \<open>h_\<close>; \<open>h_qty_min\<close> and
  \<open>h_qty_max\<close> are the bounds held by \<open>qty_dist_\<close>.
\<close>

record 'g Hawkes =
  h_dim :: nat
  h_mu :: "double list"
  h_alpha :: "double list list"
  h_beta :: "double list list"
  h_s :: "double list"
  h_lambda :: "double list"
  h_w :: "double list"
  h_last_time :: double
  h_rng :: 'g
  h_qty_min :: cint
  h_qty_max :: cint

text \<open>
  The constructor, with the generator already seeded. It throws on a wrong dimension
  and on a baseline that is not finite and positive; it checks neither \<open>alpha\<close> nor
  \<open>beta\<close> beyond their sizes.
\<close>

definition new_Hawkes ::
  "double list \<Rightarrow> double list list \<Rightarrow> double list list \<Rightarrow> cint \<Rightarrow> cint \<Rightarrow> 'g
     \<Rightarrow> error + 'g Hawkes" where
  "new_Hawkes mu alpha beta qty_min qty_max seeded =
     (let dim = length mu in
      if dim \<noteq> 6 then Inl (invalid_argument ''Hawkes process must be 6-dimensional'')
      else if length alpha \<noteq> dim \<or> length beta \<noteq> dim
        then Inl (invalid_argument ''alpha/beta matrices must be 6x6'')
      else if \<exists>i \<in> set [0..<dim]. length (alpha ! i) \<noteq> dim \<or> length (beta ! i) \<noteq> dim
        then Inl (invalid_argument ''alpha/beta rows must have size 6'')
      else if \<exists>i \<in> set [0..<dim]. \<not> isfinite (mu ! i) \<or> dle (mu ! i) (Fin 0)
        then Inl (invalid_argument ''All baseline intensities mu must be finite and positive'')
      else Inr \<lparr>h_dim = dim, h_mu = mu, h_alpha = alpha, h_beta = beta,
                h_s = replicate dim (Fin 0), h_lambda = mu, h_w = replicate dim (Fin 1),
                h_last_time = Fin 0, h_rng = seeded, h_qty_min = qty_min, h_qty_max = qty_max\<rparr>)"

text \<open>\<open>set_weights\<close>: a weight that is not finite and positive is replaced by 1.\<close>

definition set_weights :: "'g Hawkes \<Rightarrow> double list \<Rightarrow> error + 'g Hawkes" where
  "set_weights st w =
     (if length w \<noteq> h_dim st then Inl (invalid_argument ''weights vector must have size 6'')
      else Inr (st\<lparr>h_w := map (\<lambda>x. if \<not> isfinite x \<or> dle x (Fin 0) then Fin 1 else x) w\<rparr>))"

text \<open>
  The body shared by the two loops over the dimensions: \<open>s_[i]\<close> becomes \<open>x\<close>, then
  \<open>lambda_[i] = mu_[i] + s_[i]\<close>, clamped at zero.
\<close>

definition refresh :: "'g Hawkes \<Rightarrow> nat \<Rightarrow> double \<Rightarrow> 'g Hawkes" where
  "refresh st i x =
     (let l = dadd (h_mu st ! i) x in
      st\<lparr>h_s := (h_s st)[i := x],
         h_lambda := (h_lambda st)[i := (if dlt l (Fin 0) then Fin 0 else l)]\<rparr>)"

text \<open>\<open>decay_to\<close>: nothing happens for a time at or before \<open>last_time_\<close>.\<close>

definition decay_to :: "'g Hawkes \<Rightarrow> double \<Rightarrow> 'g Hawkes" where
  "decay_to st t =
     (if dle t (h_last_time st) then st
      else
        let dt = dsub t (h_last_time st);
            st' = fold (\<lambda>i st'. refresh st' i
                     (dmul (h_s st' ! i) (dexp (dmul (dneg (h_beta st ! i ! i)) dt))))
                   [0..<h_dim st] st
        in st'\<lparr>h_last_time := t\<rparr>)"

text \<open>\<open>total_weighted_intensity\<close>: the sum of \<open>w_[i] * lambda_[i]\<close> over the positive intensities.\<close>

definition total_weighted_intensity :: "'g Hawkes \<Rightarrow> double" where
  "total_weighted_intensity st =
     fold (\<lambda>i sum. if dgt (h_lambda st ! i) (Fin 0)
                    then dadd sum (dmul (h_w st ! i) (h_lambda st ! i)) else sum)
          [0..<h_dim st] (Fin 0)"

text \<open>The cumulative walk of \<open>sample_dimension_weighted\<close> over the remaining indices.\<close>

fun sample_walk :: "'g Hawkes \<Rightarrow> double \<Rightarrow> double \<Rightarrow> nat list \<Rightarrow> nat" where
  "sample_walk st u acc [] = h_dim st - 1"
| "sample_walk st u acc (i # is) =
     (if dle (h_lambda st ! i) (Fin 0) then sample_walk st u acc is
      else
        let acc' = dadd acc (dmul (h_w st ! i) (h_lambda st ! i)) in
        if dle u acc' then i else sample_walk st u acc' is)"

definition sample_dimension_weighted :: "'g stdlib \<Rightarrow> 'g Hawkes \<Rightarrow> nat \<times> 'g Hawkes" where
  "sample_dimension_weighted L st =
     (let total = total_weighted_intensity st in
      if \<not> dgt total (Fin 0) then (0, st)
      else
        let (x, g) = uniform01 L (h_rng st);
            u = dmul x total
        in (sample_walk st u (Fin 0) [0..<h_dim st], st\<lparr>h_rng := g\<rparr>))"

text \<open>The excitation of every dimension by an accepted event of category \<open>k\<close>.\<close>

definition excite :: "'g Hawkes \<Rightarrow> nat \<Rightarrow> 'g Hawkes" where
  "excite st k =
     fold (\<lambda>i st'. refresh st' i (dadd (h_s st' ! i) (h_alpha st ! i ! k))) [0..<h_dim st] st"

text \<open>
  The \<open>switch\<close> on the category; any other \<open>k\<close> leaves the value-initialised fields, \<open>Add\<close>
  and \<open>Bid\<close>.
\<close>

definition category_event :: "nat \<Rightarrow> EventType \<times> Side" where
  "category_event k =
     (if k = 0 then (Add, Bid) else if k = 1 then (Add, Ask)
      else if k = 2 then (Cancel, Bid) else if k = 3 then (Cancel, Ask)
      else if k = 4 then (Market, Bid) else if k = 5 then (Market, Ask)
      else (Add, Bid))"

text \<open>
  One pass of the thinning loop up to the acceptance test: the bound, the candidate time,
  the state decayed to it, the intensity there and the second draw.
\<close>

definition propose ::
  "'g stdlib \<Rightarrow> 'g Hawkes \<Rightarrow> double \<Rightarrow> double \<times> double \<times> double \<times> double \<times> 'g Hawkes" where
  "propose L st current_time =
     (let lambda_bar = total_weighted_intensity st;
          (u1, g1) = uniform01 L (h_rng st);
          wait = ddiv (dneg (dlog u1)) lambda_bar;
          cand_time = dadd current_time wait;
          st1 = decay_to (st\<lparr>h_rng := g1\<rparr>) cand_time;
          lambda_cand = total_weighted_intensity st1;
          (u2, g2) = uniform01 L (h_rng st1)
      in (lambda_bar, cand_time, lambda_cand, u2, st1\<lparr>h_rng := g2\<rparr>))"

text \<open>What \<open>next\<close> does once a candidate is accepted.\<close>

definition accept :: "'g stdlib \<Rightarrow> 'g Hawkes \<Rightarrow> double \<Rightarrow> Event \<times> 'g Hawkes" where
  "accept L st cand_time =
     (let (k, st1) = sample_dimension_weighted L st;
          st2 = excite st1 k;
          (q, g) = uniform_int L (h_qty_min st2) (h_qty_max st2) (h_rng st2)
      in (\<lparr>ev_t = cand_time, ev_type = fst (category_event k), ev_side = snd (category_event k),
           ev_price = Fin 0, ev_quantity = q\<rparr>,
          st2\<lparr>h_rng := g\<rparr>))"

text \<open>
  The loop \<open>while (true)\<close> of \<open>next\<close>, with fuel: \<open>None\<close> when the loop has not returned
  after \<open>fuel\<close> passes. A bound that is not positive resets the weights and starts the
  pass again without a draw.
\<close>

fun next_loop :: "nat \<Rightarrow> 'g stdlib \<Rightarrow> 'g Hawkes \<Rightarrow> double \<Rightarrow> (Event \<times> 'g Hawkes) option" where
  "next_loop 0 L st current_time = None"
| "next_loop (Suc fuel) L st current_time =
     (if \<not> dgt (total_weighted_intensity st) (Fin 0)
      then next_loop fuel L (st\<lparr>h_w := map (\<lambda>x. Fin 1) (h_w st)\<rparr>) current_time
      else
        let (lambda_bar, cand_time, lambda_cand, u2, st2) = propose L st current_time in
        if dle u2 (ddiv lambda_cand lambda_bar) then Some (accept L st2 cand_time)
        else next_loop fuel L st2 cand_time)"

text \<open>\<open>next\<close>: the decay to the caller's time, then the loop.\<close>

definition next_event :: "'g stdlib \<Rightarrow> nat \<Rightarrow> 'g Hawkes \<Rightarrow> double \<Rightarrow> (Event \<times> 'g Hawkes) option" where
  "next_event L fuel st t = next_loop fuel L (decay_to st t) t"

section \<open>The simulator\<close>

text \<open>The constants \<open>price_center\<close> and \<open>tick\<close> of \<open>main\<close>.\<close>

definition price_center :: double where
  "price_center = Fin 100"

definition tick :: double where
  "tick = Fin (1 / 10)"

text \<open>The Hawkes parameters of \<open>main\<close> and the process it constructs from them.\<close>

definition main_mu :: "double list" where
  "main_mu = [Fin (3 / 2), Fin (3 / 2), Fin (8 / 10), Fin (8 / 10), Fin 1, Fin 1]"

definition main_alpha :: "double list list" where
  "main_alpha =
     [[Fin (6 / 10), Fin (1 / 10), Fin (1 / 10), Fin 0, Fin (2 / 10), Fin 0],
      [Fin (1 / 10), Fin (6 / 10), Fin 0, Fin (1 / 10), Fin 0, Fin (2 / 10)],
      [Fin (1 / 10), Fin 0, Fin (4 / 10), Fin (1 / 10), Fin (1 / 10), Fin 0],
      [Fin 0, Fin (1 / 10), Fin (1 / 10), Fin (4 / 10), Fin 0, Fin (1 / 10)],
      [Fin (2 / 10), Fin 0, Fin (1 / 10), Fin 0, Fin (5 / 10), Fin (1 / 10)],
      [Fin 0, Fin (2 / 10), Fin 0, Fin (1 / 10), Fin (1 / 10), Fin (5 / 10)]]"

definition main_beta :: "double list list" where
  "main_beta = replicate 6 (replicate 6 (Fin (3 / 2)))"

definition main_process :: "'g \<Rightarrow> error + 'g Hawkes" where
  "main_process seeded = new_Hawkes main_mu main_alpha main_beta 5 50 seeded"

text \<open>
  \<open>compute_weights\<close>, and the clamp of its last loop: a weight that is not finite or is
  below 0.05 becomes 0.05, one above 50 becomes 50.
\<close>

definition clamp_weight :: "double \<Rightarrow> double" where
  "clamp_weight x =
     (let x1 = (if \<not> isfinite x \<or> dlt x (Fin (5 / 100)) then Fin (5 / 100) else x)
      in if dgt x1 (Fin 50) then Fin 50 else x1)"

definition compute_weights :: "OrderBook \<Rightarrow> double list" where
  "compute_weights book =
     (let tob = book_top book in
      case (best_bid_price tob, best_ask_price tob) of
        (Some bid, Some ask) \<Rightarrow>
          let tk = tick_size book;
              spread = dsub ask bid;
              spread_ticks = (if dgt tk (Fin 0) then ddiv spread tk else Fin 1);
              qb = (case best_bid_qty tob of Some q \<Rightarrow> double_of_int q | None \<Rightarrow> Fin 0);
              qa = (case best_ask_qty tob of Some q \<Rightarrow> double_of_int q | None \<Rightarrow> Fin 0);
              denom = dadd qb qa;
              imbalance = (if dgt denom (Fin 0) then ddiv (dsub qb qa) denom else Fin 0);
              wide = dadd (Fin 1) (dmul (Fin (8 / 10)) spread_ticks);
              tight = dadd (Fin 1) (ddiv (Fin (5 / 2)) (dadd (Fin 1) spread_ticks))
          in map clamp_weight
               [wide, wide,
                dadd (Fin 1) (dmul (Fin (1 / 100)) qb),
                dadd (Fin 1) (dmul (Fin (1 / 100)) qa),
                dmul tight (dadd (Fin 1) (dmul (Fin (3 / 2)) (dmax (Fin 0) imbalance))),
                dmul tight (dadd (Fin 1) (dmul (Fin (3 / 2)) (dmax (Fin 0) (dneg imbalance))))]
      | _ \<Rightarrow> replicate 6 (Fin 1))"

text \<open>The seeding loop of \<open>main\<close>, over the values of \<open>k\<close> still to come.\<close>

fun seed_levels :: "cint list \<Rightarrow> OrderBook \<Rightarrow> OrderBook" where
  "seed_levels [] book = book"
| "seed_levels (k # ks) book =
     seed_levels ks
       (snd (book_apply
          (snd (book_apply book
             \<lparr>ev_t = Fin 0, ev_type = Add, ev_side = Bid,
              ev_price = dsub price_center (dmul (double_of_int k) tick),
              ev_quantity = 60\<rparr>))
          \<lparr>ev_t = Fin 0, ev_type = Add, ev_side = Ask,
           ev_price = dadd price_center (dmul (double_of_int k) tick),
           ev_quantity = 60\<rparr>))"

definition seed_book :: OrderBook where
  "seed_book = seed_levels [1, 2, 3, 4, 5, 6, 7, 8, 9, 10] (new_OrderBook tick)"

text \<open>The safety net of the loop: both tests read the top of book taken before the first injection.\<close>

definition liveness :: "OrderBook \<Rightarrow> double \<Rightarrow> OrderBook" where
  "liveness book t =
     (let tob = book_top book;
          book1 = (if best_bid_price tob = None
                   then snd (book_apply book
                          \<lparr>ev_t = t, ev_type = Add, ev_side = Bid,
                           ev_price = dsub price_center tick, ev_quantity = 50\<rparr>)
                   else book)
      in if best_ask_price tob = None
         then snd (book_apply book1
                \<lparr>ev_t = t, ev_type = Add, ev_side = Ask,
                 ev_price = dadd price_center tick, ev_quantity = 50\<rparr>)
         else book1)"

text \<open>The placement logic: the price of the event, and the placement generator after its draws.\<close>

definition place :: "'g stdlib \<Rightarrow> double \<Rightarrow> double \<Rightarrow> Event \<Rightarrow> 'g \<Rightarrow> Event \<times> 'g" where
  "place L best_bid best_ask e rng =
     (let spread_ticks = ddiv (dsub best_ask best_bid) tick in
      case ev_type e of
        Add \<Rightarrow>
          let improve_prob = (if dge spread_ticks (Fin 3) then Fin (45 / 100) else Fin (20 / 100));
              join_prob = Fin (50 / 100);
              (roll, rng1) = uniform_int L 0 99 rng
          in (case ev_side e of
                Bid \<Rightarrow>
                  if sint roll < sint (int_of_double (dmul improve_prob (Fin 100)))
                     \<and> dlt (dadd best_bid tick) best_ask
                  then (e\<lparr>ev_price := dadd best_bid tick\<rparr>, rng1)
                  else if sint roll
                          < sint (int_of_double (dmul (dadd improve_prob join_prob) (Fin 100)))
                  then (e\<lparr>ev_price := best_bid\<rparr>, rng1)
                  else
                    let (depth, rng2) = uniform_int L 1 5 rng1
                    in (e\<lparr>ev_price := dsub best_bid (dmul (double_of_int depth) tick)\<rparr>, rng2)
              | Ask \<Rightarrow>
                  if sint roll < sint (int_of_double (dmul improve_prob (Fin 100)))
                     \<and> dgt (dsub best_ask tick) best_bid
                  then (e\<lparr>ev_price := dsub best_ask tick\<rparr>, rng1)
                  else if sint roll
                          < sint (int_of_double (dmul (dadd improve_prob join_prob) (Fin 100)))
                  then (e\<lparr>ev_price := best_ask\<rparr>, rng1)
                  else
                    let (depth, rng2) = uniform_int L 1 5 rng1
                    in (e\<lparr>ev_price := dadd best_ask (dmul (double_of_int depth) tick)\<rparr>, rng2))
      | Cancel \<Rightarrow> (e\<lparr>ev_price := (case ev_side e of Bid \<Rightarrow> best_bid | Ask \<Rightarrow> best_ask)\<rparr>, rng)
      | Market \<Rightarrow> (e\<lparr>ev_price := Fin 0\<rparr>, rng))"

text \<open>
  How an iteration of the loop can fail to reach its end: \<open>set_weights\<close> throws, \<open>next\<close> has
  not returned within the fuel, or \<open>*tob.best_bid_price\<close> or \<open>*tob.best_ask_price\<close> reads an
  empty \<open>std::optional\<close>, which is undefined behaviour.
\<close>

datatype sim_error = engine_throws error | next_not_returned | empty_optional_read

text \<open>
  The body of the loop after \<open>t = e.t\<close>: the safety net, the two reads of the top of book,
  the placement and \<open>apply\<close>. It returns the book, the event as logged and the placement
  generator.
\<close>

definition sim_body ::
  "'g stdlib \<Rightarrow> OrderBook \<Rightarrow> Event \<Rightarrow> 'g \<Rightarrow> sim_error + OrderBook \<times> Event \<times> 'g" where
  "sim_body L book e rng =
     (let book1 = liveness book (ev_t e);
          tob = book_top book1
      in case (best_bid_price tob, best_ask_price tob) of
           (Some best_bid, Some best_ask) \<Rightarrow>
             let (e', rng') = place L best_bid best_ask e rng
             in Inr (snd (book_apply book1 e'), e', rng')
         | _ \<Rightarrow> Inl empty_optional_read)"

text \<open>The objects of \<open>main\<close> that the loop changes.\<close>

record 'g Sim =
  sim_book :: OrderBook
  sim_process :: "'g Hawkes"
  sim_rng :: 'g
  sim_t :: double

text \<open>
  One iteration of the loop: the weights from the book, \<open>next\<close>, the clock set to the
  event's time, then the body. It returns the event as logged and the objects after it.
\<close>

definition sim_iter :: "'g stdlib \<Rightarrow> nat \<Rightarrow> 'g Sim \<Rightarrow> sim_error + Event \<times> 'g Sim" where
  "sim_iter L fuel sim =
     (case set_weights (sim_process sim) (compute_weights (sim_book sim)) of
        Inl err \<Rightarrow> Inl (engine_throws err)
      | Inr p1 \<Rightarrow>
          (case next_event L fuel p1 (sim_t sim) of
             None \<Rightarrow> Inl next_not_returned
           | Some (e, p2) \<Rightarrow>
               (case sim_body L (sim_book sim) e (sim_rng sim) of
                  Inl err \<Rightarrow> Inl err
                | Inr (book', e', rng') \<Rightarrow>
                    Inr (e', \<lparr>sim_book = book', sim_process = p2, sim_rng = rng',
                              sim_t = ev_t e\<rparr>))))"

text \<open>
  \<open>n\<close> iterations of the loop: the events logged, in order, and the state reached or the
  failure that stopped the run.
\<close>

fun sim_loop :: "'g stdlib \<Rightarrow> nat \<Rightarrow> nat \<Rightarrow> 'g Sim \<Rightarrow> Event list \<times> (sim_error + 'g Sim)" where
  "sim_loop L fuel 0 sim = ([], Inr sim)"
| "sim_loop L fuel (Suc n) sim =
     (case sim_iter L fuel sim of
        Inl err \<Rightarrow> ([], Inl err)
      | Inr (e, sim') \<Rightarrow>
          (case sim_loop L fuel n sim' of (logged, r) \<Rightarrow> (e # logged, r)))"

text \<open>
  The loop body run on a given list of events returned by \<open>next\<close>: the book and the
  placement generator after the last one, or the failure.
\<close>

fun sim_bodies :: "'g stdlib \<Rightarrow> OrderBook \<Rightarrow> 'g \<Rightarrow> Event list \<Rightarrow> sim_error + OrderBook \<times> 'g" where
  "sim_bodies L book rng [] = Inr (book, rng)"
| "sim_bodies L book rng (e # es) =
     (case sim_body L book e rng of
        Inl err \<Rightarrow> Inl err
      | Inr (book', e', rng') \<Rightarrow> sim_bodies L book' rng' es)"

section \<open>Notions used in the statements\<close>

subsection \<open>Books\<close>

text \<open>The map of a side of the book, and the side opposite to a side.\<close>

definition side_of :: "Side \<Rightarrow> OrderBook \<Rightarrow> side_map" where
  "side_of s b = (case s of Bid \<Rightarrow> bids b | Ask \<Rightarrow> asks b)"

fun opposite :: "Side \<Rightarrow> Side" where
  "opposite Bid = Ask"
| "opposite Ask = Bid"

text \<open>The events that pass the tests of \<open>apply\<close>.\<close>

definition accepted :: "Event \<Rightarrow> bool" where
  "accepted e =
     (isfinite (ev_t e) \<and> 0 < sint (ev_quantity e) \<and>
      (ev_type e = Market \<or> (isfinite (ev_price e) \<and> \<not> dle (ev_price e) (Fin 0))))"

text \<open>
  An Add is marketable when its snapped price crosses or touches the best price of the
  opposite side, which must exist.
\<close>

definition marketable :: "OrderBook \<Rightarrow> Event \<Rightarrow> bool" where
  "marketable b e =
     (ev_type e = Add \<and>
      (case ev_side e of
         Bid \<Rightarrow> asks b \<noteq> [] \<and> dge (round_to_tick b (ev_price e)) (fst (hd (asks b)))
       | Ask \<Rightarrow> bids b \<noteq> [] \<and> dle (round_to_tick b (ev_price e)) (fst (last (bids b)))))"

text \<open>
  A well-formed side map has strictly ascending keys, none of them NaN; \<open>qty_pos\<close> says
  that every level holds at least 1.
\<close>

definition side_ok :: "side_map \<Rightarrow> bool" where
  "side_ok m = (sorted_wrt dlt (map fst m) \<and> list_all (\<lambda>k. \<not> isnan k) (map fst m))"

definition qty_pos :: "side_map \<Rightarrow> bool" where
  "qty_pos m = list_all (\<lambda>l. 1 \<le> sint (snd l)) m"


definition level_qty :: "side_map \<Rightarrow> double \<Rightarrow> cint" where
  "level_qty m p = (case map_of m p of Some v \<Rightarrow> v | None \<Rightarrow> 0)"

text \<open>A tick size as the constructor leaves it: finite and positive.\<close>

definition tick_ok :: "OrderBook \<Rightarrow> bool" where
  "tick_ok b = (isfinite (tick_size b) \<and> dgt (tick_size b) (Fin 0))"

text \<open>
  The book is not crossed: the best bid is below the best ask when both exist;
  \<open>keys_below\<close> says the same of every pair of keys.
\<close>

definition noncross :: "OrderBook \<Rightarrow> bool" where
  "noncross b = (bids b \<noteq> [] \<and> asks b \<noteq> [] \<longrightarrow> dlt (fst (last (bids b))) (fst (hd (asks b))))"

definition keys_below :: "side_map \<Rightarrow> side_map \<Rightarrow> bool" where
  "keys_below B A = (\<forall>x \<in> fst ` set B. \<forall>y \<in> fst ` set A. dlt x y)"

text \<open>
  The invariant of the keys, which every \<open>apply\<close> keeps, and the invariant of the book,
  which adds that every level holds at least 1.
\<close>

definition keys_inv :: "OrderBook \<Rightarrow> bool" where
  "keys_inv b = (tick_ok b \<and> side_ok (bids b) \<and> side_ok (asks b) \<and> noncross b)"

definition book_inv :: "OrderBook \<Rightarrow> bool" where
  "book_inv b = (keys_inv b \<and> qty_pos (bids b) \<and> qty_pos (asks b))"

text \<open>A sequence of \<open>apply\<close> calls, return values dropped.\<close>

fun apply_all :: "OrderBook \<Rightarrow> Event list \<Rightarrow> OrderBook" where
  "apply_all b [] = b"
| "apply_all b (e # es) = apply_all (snd (book_apply b e)) es"

text \<open>
  The event is an Add that \<open>apply\<close> rests and the sum of the level's quantity and the
  event's quantity exceeds \<open>INT_MAX\<close>; \<open>overflow_free\<close> says that no event of a run does so
  in the book it meets.
\<close>

definition add_overflows :: "OrderBook \<Rightarrow> Event \<Rightarrow> bool" where
  "add_overflows b e =
     (fst (book_apply b e) \<and> ev_type e = Add \<and> \<not> marketable b e \<and>
      2147483647 < sint (level_qty (side_of (ev_side e) b) (round_to_tick b (ev_price e)))
                     + sint (ev_quantity e))"

fun overflow_free :: "OrderBook \<Rightarrow> Event list \<Rightarrow> bool" where
  "overflow_free b [] = True"
| "overflow_free b (e # es) = (\<not> add_overflows b e \<and> overflow_free (snd (book_apply b e)) es)"



subsection \<open>Engine states\<close>

text \<open>The real number a finite double stands for.\<close>

fun rv :: "double \<Rightarrow> real" where
  "rv (Fin x) = x"
| "rv NaN = 0"
| "rv NInf = 0"
| "rv PInf = 0"

text \<open>A double that is finite and positive, or finite and not negative.\<close>

definition fin_pos :: "double \<Rightarrow> bool" where
  "fin_pos x = (isfinite x \<and> dlt (Fin 0) x)"

definition fin_nonneg :: "double \<Rightarrow> bool" where
  "fin_nonneg x = (isfinite x \<and> dle (Fin 0) x)"

text \<open>The clamp \<open>if (lambda_[i] < 0.0) lambda_[i] = 0.0\<close>.\<close>

definition clamp0 :: "double \<Rightarrow> double" where
  "clamp0 l = (if dlt l (Fin 0) then Fin 0 else l)"

text \<open>
  The engine states claim C2 speaks of: six dimensions, finite baselines, weights and
  diagonal decays that are positive, finite excitation accumulators that are not
  negative, the cached intensities \<open>lambda_i = mu_i + s_i\<close>, and a last time that is a
  number.
\<close>

definition intensity_ok :: "'g Hawkes \<Rightarrow> bool" where
  "intensity_ok st =
     (h_dim st = 6 \<and> length (h_mu st) = 6 \<and> length (h_beta st) = 6 \<and> length (h_s st) = 6 \<and>
      length (h_lambda st) = 6 \<and> length (h_w st) = 6 \<and>
      (\<forall>i<6. fin_pos (h_mu st ! i) \<and> fin_pos (h_beta st ! i ! i) \<and> fin_nonneg (h_s st ! i) \<and>
             fin_pos (h_w st ! i) \<and> h_lambda st ! i = dadd (h_mu st ! i) (h_s st ! i)) \<and>
      \<not> isnan (h_last_time st))"

text \<open>The sum \<open>\<Sum>i w_i * max(lambda_i, 0)\<close> of claim C2, over the reals.\<close>

definition weighted_sum :: "'g Hawkes \<Rightarrow> real" where
  "weighted_sum st = (\<Sum>i<6. rv (h_w st ! i) * max (rv (h_lambda st ! i)) 0)"

text \<open>The factor by which an accumulator with decay \<open>b\<close> shrinks over a time span \<open>dt\<close>.\<close>

definition decay_factor :: "double \<Rightarrow> double \<Rightarrow> real" where
  "decay_factor b dt = rv (dexp (dmul (dneg b) dt))"

text \<open>
  The parameters of the data model: six baselines that are finite and positive, a 6 by 6
  excitation matrix with finite entries that are not negative, and a 6 by 6 decay matrix
  whose diagonal is finite and positive.
\<close>

definition params_ok :: "double list \<Rightarrow> double list list \<Rightarrow> double list list \<Rightarrow> bool" where
  "params_ok mu alpha beta =
     (length mu = 6 \<and> length alpha = 6 \<and> length beta = 6 \<and>
      (\<forall>i<6. length (alpha ! i) = 6 \<and> length (beta ! i) = 6 \<and> fin_pos (mu ! i) \<and>
             fin_pos (beta ! i ! i) \<and> (\<forall>k<6. fin_nonneg (alpha ! i ! k))))"

text \<open>
  The states of \<open>intensity_ok\<close> whose excitation matrix is 6 by 6, finite and not
  negative: the invariant of the reachable states.
\<close>

definition engine_ok :: "'g Hawkes \<Rightarrow> bool" where
  "engine_ok st =
     (intensity_ok st \<and> length (h_alpha st) = 6 \<and>
      (\<forall>i<6. length (h_alpha st ! i) = 6 \<and> (\<forall>k<6. fin_nonneg (h_alpha st ! i ! k))))"

text \<open>What the standard library promises of \<open>uniform_real_distribution(0.0, 1.0)\<close>: a value in \<open>[0, 1)\<close>.\<close>

definition lib_ok :: "'g stdlib \<Rightarrow> bool" where
  "lib_ok L = (\<forall>g. dle (Fin 0) (fst (uniform01 L g)) \<and> dlt (fst (uniform01 L g)) (Fin 1))"

text \<open>A time: a finite double or \<open>+\<infinity>\<close>.\<close>

definition time_ok :: "double \<Rightarrow> bool" where
  "time_ok t = dlt NInf t"

text \<open>
  The engine states reachable through construction with such parameters, \<open>set_weights\<close>
  and \<open>next\<close> at a time.
\<close>

inductive reachable :: "'g stdlib \<Rightarrow> 'g Hawkes \<Rightarrow> bool" for L :: "'g stdlib" where
  constructed:
    "params_ok mu alpha beta \<Longrightarrow> new_Hawkes mu alpha beta qty_min qty_max seeded = Inr st
     \<Longrightarrow> reachable L st"
| weights_set:
    "reachable L st \<Longrightarrow> set_weights st w = Inr st' \<Longrightarrow> reachable L st'"
| next_returned:
    "reachable L st \<Longrightarrow> time_ok t \<Longrightarrow> next_event L fuel st t = Some (e, st')
     \<Longrightarrow> reachable L st'"

subsection \<open>Libraries with prescribed draws\<close>

text \<open>
  A library whose uniform real draw is always 0 and whose uniform integer draw is always
  the lower bound; the generator has no state.
\<close>

definition lowest_draws :: "unit stdlib" where
  "lowest_draws = \<lparr>uniform01 = (\<lambda>g. (Fin 0, g)), uniform_int = (\<lambda>a b g. (a, g))\<rparr>"

text \<open>
  A library that reads its integer draws from a list, for runs with prescribed draws; its
  uniform real draw is always 0.
\<close>

definition script :: "int list stdlib" where
  "script = \<lparr>uniform01 = (\<lambda>g. (Fin 0, g)),
            uniform_int = (\<lambda>a b g. (word_of_int (hd g), tl g))\<rparr>"

section \<open>Lemmas\<close>

lemma cmp_NaN [simp]: "dge a NaN = False" "dle a NaN = False" "dlt a NaN = False"
  by (cases a; simp add: dge_def)+

lemma dlt_irrefl [simp]: "\<not> dlt a a"
  by (cases a) simp_all

lemma dlt_trans: "dlt a b \<Longrightarrow> dlt b c \<Longrightarrow> dlt a c"
  by (cases a; cases b; cases c) simp_all

lemma dlt_asym: "dlt a b \<Longrightarrow> \<not> dlt b a"
  by (cases a; cases b) simp_all

lemma dlt_total: "\<not> isnan a \<Longrightarrow> \<not> isnan b \<Longrightarrow> \<not> dlt a b \<Longrightarrow> \<not> dlt b a \<Longrightarrow> a = b"
  by (cases a; cases b) simp_all

lemma dle_iff: "dle a b = (dlt a b \<or> (a = b \<and> \<not> isnan a))"
  by (cases a; cases b) auto

lemma dlt_not_nan: "dlt a b \<Longrightarrow> \<not> isnan a \<and> \<not> isnan b"
  by (cases a; cases b) simp_all

lemma sint_sub_exact:
  fixes a b :: cint
  shows "- (2 ^ 31) \<le> sint a - sint b \<Longrightarrow> sint a - sint b < 2 ^ 31 \<Longrightarrow> sint (a - b) = sint a - sint b"
  by (simp add: sint_word_ariths signed_take_bit_int_eq_self)

lemma sint_add_exact:
  fixes a b :: cint
  shows "- (2 ^ 31) \<le> sint a + sint b \<Longrightarrow> sint a + sint b < 2 ^ 31 \<Longrightarrow> sint (a + b) = sint a + sint b"
  by (simp add: sint_word_ariths signed_take_bit_int_eq_self)

lemma sint_bounds:
  fixes a :: cint
  shows "- (2 ^ 31) \<le> sint a" "sint a < 2 ^ 31"
  using sint_ge [of a] sint_lt [of a] by simp_all

lemma sint_sub_pos:
  fixes a b :: cint
  shows "0 \<le> sint b \<Longrightarrow> 0 \<le> sint a \<Longrightarrow> sint (a - b) = sint a - sint b"
  using sint_bounds [of a] sint_bounds [of b] by (intro sint_sub_exact) linarith+

subsection \<open>side maps\<close>

lemma side_ok_Nil [simp]: "side_ok []"
  by (simp add: side_ok_def)

lemma side_ok_Cons:
  "side_ok ((k, v) # m) = (\<not> isnan k \<and> (\<forall>x \<in> set (map fst m). dlt k x) \<and> side_ok m)"
  by (auto simp: side_ok_def)

lemma side_ok_keys: "side_ok m \<Longrightarrow> x \<in> set (map fst m) \<Longrightarrow> \<not> isnan x"
  by (auto simp: side_ok_def list_all_iff)

lemma keys_index_add:
  "side_ok m \<Longrightarrow> \<not> isnan p \<Longrightarrow> set (map fst (index_add m p q)) = insert p (set (map fst m))"
proof (induction m)
  case Nil
  then show ?case by simp
next
  case (Cons l m)
  obtain k v where l: "l = (k, v)" by (cases l)
  from Cons.prems have k: "\<not> isnan k" and m: "side_ok m" by (simp_all add: l side_ok_Cons)
  show ?case
    using Cons.IH [OF m Cons.prems(2)] dlt_total [OF k Cons.prems(2)]
    by (auto simp: l)
qed

lemma side_ok_index_add:
  "side_ok m \<Longrightarrow> \<not> isnan p \<Longrightarrow> side_ok (index_add m p q)"
proof (induction m)
  case Nil
  then show ?case by (simp add: side_ok_Cons)
next
  case (Cons l m)
  obtain k v where l: "l = (k, v)" by (cases l)
  from Cons.prems have k: "\<not> isnan k" and m: "side_ok m"
    and lt: "\<forall>x \<in> set (map fst m). dlt k x" by (simp_all add: l side_ok_Cons)
  show ?case
  proof (cases "dlt k p")
    case True
    then show ?thesis
      using Cons.IH [OF m Cons.prems(2)] k lt keys_index_add [OF m Cons.prems(2), of q]
      by (auto simp: l side_ok_Cons)
  next
    case False
    then show ?thesis
      using Cons.prems k lt m by (auto simp: l side_ok_Cons intro: dlt_trans)
  qed
qed

lemma map_of_sorted_None:
  "side_ok ((k, v) # m) \<Longrightarrow> \<not> dlt k p \<Longrightarrow> map_of m p = None"
  by (auto simp: side_ok_Cons map_of_eq_None_iff)

lemma qty_pos_index_add:
  "side_ok m \<Longrightarrow> \<not> isnan p \<Longrightarrow> qty_pos m \<Longrightarrow> 1 \<le> sint q \<Longrightarrow>
   sint (level_qty m p) + sint q \<le> 2147483647 \<Longrightarrow> qty_pos (index_add m p q)"
proof (induction m)
  case Nil
  then show ?case by (simp add: qty_pos_def)
next
  case (Cons l m)
  obtain k v where l: "l = (k, v)" by (cases l)
  from Cons.prems have k: "\<not> isnan k" and m: "side_ok m" by (simp_all add: l side_ok_Cons)
  show ?case
  proof (cases "dlt k p")
    case True
    then have "k \<noteq> p" by auto
    then have "level_qty (l # m) p = level_qty m p" by (simp add: level_qty_def l)
    then show ?thesis
      using Cons True m by (simp add: l qty_pos_def)
  next
    case False
    show ?thesis
    proof (cases "dlt p k")
      case True
      then show ?thesis using False Cons.prems by (simp add: l qty_pos_def)
    next
      case F2: False
      have kp: "k = p" using dlt_total [OF k Cons.prems(2) False F2] .
      have "level_qty (l # m) p = v" by (simp add: level_qty_def l kp)
      then have "sint (v + q) = sint v + sint q"
        using Cons.prems sint_bounds [of v] by (intro sint_add_exact) (simp_all add: l qty_pos_def)
      then show ?thesis using False F2 Cons.prems by (simp add: l qty_pos_def)
    qed
  qed
qed

lemma keys_find_sub: "x \<in> fst ` set (find_sub m p q) \<Longrightarrow> x \<in> fst ` set m"
  by (induction m) (force split: if_splits)+

lemma side_ok_find_sub: "side_ok m \<Longrightarrow> side_ok (find_sub m p q)"
proof (induction m)
  case Nil
  then show ?case by simp
next
  case (Cons l m)
  obtain k v where l: "l = (k, v)" by (cases l)
  show ?case using Cons keys_find_sub [of _ m p q] by (force simp: l side_ok_Cons)
qed

lemma qty_pos_find_sub: "qty_pos m \<Longrightarrow> qty_pos (find_sub m p q)"
  by (induction m) (auto simp: qty_pos_def)

lemma find_sub_absent:
  "side_ok m \<Longrightarrow> \<not> isnan p \<Longrightarrow> map_of m p = None \<Longrightarrow> find_sub m p q = m"
proof (induction m)
  case Nil
  then show ?case by simp
next
  case (Cons l m)
  obtain k v where l: "l = (k, v)" by (cases l)
  from Cons.prems have k: "\<not> isnan k" and m: "side_ok m" by (simp_all add: l side_ok_Cons)
  from Cons.prems(3) have ne: "k \<noteq> p" and mp: "map_of m p = None"
    by (auto simp: l split: if_splits)
  show ?case using Cons.IH [OF m Cons.prems(2) mp] ne dlt_total [OF k Cons.prems(2)]
    by (auto simp: l)
qed

lemma map_of_find_sub:
  "side_ok m \<Longrightarrow> \<not> isnan p \<Longrightarrow> map_of m p = Some v \<Longrightarrow>
   map_of (find_sub m p q) =
     (if sint (v - q) \<le> 0 then (map_of m)(p := None) else (map_of m)(p \<mapsto> v - q))"
proof (induction m)
  case Nil
  then show ?case by simp
next
  case (Cons l m)
  obtain k u where l: "l = (k, u)" by (cases l)
  from Cons.prems have k: "\<not> isnan k" and m: "side_ok m" by (simp_all add: l side_ok_Cons)
  show ?case
  proof (cases "k = p")
    case True
    have "map_of m p = None" using Cons.prems(1) by (simp add: l True map_of_sorted_None)
    then show ?thesis using Cons.prems True by (auto simp: l fun_eq_iff)
  next
    case False
    then have mp: "map_of m p = Some v" using Cons.prems(3) by (simp add: l)
    then have "p \<in> set (map fst m)" by (metis map_of_eq_None_iff option.distinct(1) set_map)
    then have "dlt k p" using Cons.prems(1) by (force simp: l side_ok_Cons)
    then show ?thesis using Cons.IH [OF m Cons.prems(2) mp] False
      by (auto simp: l fun_upd_twist)
  qed
qed

subsection \<open>consumption\<close>


lemma qty_pos_simps [simp]:
  "qty_pos [] = True"
  "qty_pos (l # m) = (1 \<le> sint (snd l) \<and> qty_pos m)"
  "qty_pos (m @ n) = (qty_pos m \<and> qty_pos n)"
  by (auto simp: qty_pos_def)


lemma keys_consume_best_ask:
  "x \<in> fst ` set (consume_best_ask m q) \<Longrightarrow> x \<in> fst ` set m"
  by (induction m q rule: consume_best_ask.induct) (force split: if_splits)+

lemma side_ok_consume_best_ask: "side_ok m \<Longrightarrow> side_ok (consume_best_ask m q)"
  by (induction m q rule: consume_best_ask.induct) (auto simp: side_ok_Cons)

lemma qty_pos_consume_best_ask: "qty_pos m \<Longrightarrow> qty_pos (consume_best_ask m q)"
  by (induction m q rule: consume_best_ask.induct) (auto simp: sint_sub_pos)


lemma consume_best_bid_Nil [simp]: "consume_best_bid [] q = []"
  by (simp add: consume_best_bid.simps)

lemma consume_best_bid_snoc [simp]:
  "consume_best_bid (m @ [(p, a)]) q =
     (if sint q \<le> 0 then m @ [(p, a)]
      else if sint q < sint a then m @ [(p, a - q)]
      else consume_best_bid m (q - a))"
  by (subst consume_best_bid.simps) simp

lemma keys_consume_best_bid:
  "x \<in> fst ` set (consume_best_bid m q) \<Longrightarrow> x \<in> fst ` set m"
proof (induction m arbitrary: q rule: rev_induct)
  case Nil
  then show ?case by simp
next
  case (snoc l m)
  obtain p a where l: "l = (p, a)" by (cases l)
  show ?case using snoc by (force simp: l split: if_splits)
qed

lemma side_ok_snoc:
  "side_ok (m @ [(k, v)]) = (\<not> isnan k \<and> (\<forall>x \<in> set m. dlt (fst x) k) \<and> side_ok m)"
  by (auto simp: side_ok_def sorted_wrt_append)

lemma side_ok_consume_best_bid: "side_ok m \<Longrightarrow> side_ok (consume_best_bid m q)"
proof (induction m arbitrary: q rule: rev_induct)
  case Nil
  then show ?case by simp
next
  case (snoc l m)
  obtain p a where l: "l = (p, a)" by (cases l)
  show ?case using snoc by (auto simp: l side_ok_snoc)
qed

lemma qty_pos_consume_best_bid: "qty_pos m \<Longrightarrow> qty_pos (consume_best_bid m q)"
proof (induction m arbitrary: q rule: rev_induct)
  case Nil
  then show ?case by simp
next
  case (snoc l m)
  obtain p a where l: "l = (p, a)" by (cases l)
  show ?case using snoc by (auto simp: l sint_sub_pos)
qed


subsection \<open>book invariant\<close>

lemma side_ok_hd: "side_ok m \<Longrightarrow> x \<in> fst ` set m \<Longrightarrow> x = fst (hd m) \<or> dlt (fst (hd m)) x"
  by (cases m) (force simp: side_ok_Cons)+

lemma side_ok_last: "side_ok m \<Longrightarrow> x \<in> fst ` set m \<Longrightarrow> x = fst (last m) \<or> dlt x (fst (last m))"
  by (cases m rule: rev_cases) (force simp: side_ok_snoc)+

lemma noncross_iff:
  assumes "side_ok (bids b)" "side_ok (asks b)"
  shows "noncross b = keys_below (bids b) (asks b)"
proof
  assume nc: "noncross b"
  have "dlt x y" if x: "x \<in> fst ` set (bids b)" and y: "y \<in> fst ` set (asks b)" for x y
  proof -
    from x y have "bids b \<noteq> []" "asks b \<noteq> []" by auto
    then have m: "dlt (fst (last (bids b))) (fst (hd (asks b)))" using nc by (simp add: noncross_def)
    from side_ok_last [OF assms(1) x] side_ok_hd [OF assms(2) y] m
    show "dlt x y" by (auto intro: dlt_trans)
  qed
  then show "keys_below (bids b) (asks b)" by (simp add: keys_below_def)
next
  assume "keys_below (bids b) (asks b)"
  then show "noncross b" by (simp add: noncross_def keys_below_def)
qed

lemma keys_below_mono:
  "keys_below B A \<Longrightarrow> (\<And>x. x \<in> fst ` set B' \<Longrightarrow> x \<in> fst ` set B) \<Longrightarrow>
   (\<And>x. x \<in> fst ` set A' \<Longrightarrow> x \<in> fst ` set A) \<Longrightarrow> keys_below B' A'"
  unfolding keys_below_def by blast

lemma round_to_tick_finite: "tick_ok b \<Longrightarrow> isfinite p \<Longrightarrow> isfinite (round_to_tick b p)"
  by (cases "tick_size b"; cases p) (auto simp: tick_ok_def round_to_tick_def dgt_def)

lemma isfinite_not_nan: "isfinite p \<Longrightarrow> \<not> isnan p"
  by (cases p) simp_all

lemma book_inv_new: "book_inv (new_OrderBook ts)"
  by (cases ts)
     (auto simp: book_inv_def keys_inv_def new_OrderBook_def tick_ok_def noncross_def dgt_def)

lemma not_dle_dlt: "\<not> isnan a \<Longrightarrow> \<not> isnan b \<Longrightarrow> \<not> dle a b \<Longrightarrow> dlt b a"
  by (cases a; cases b) auto

lemma keys_inv_asks_update:
  assumes "keys_inv b" "side_ok m" "\<And>x. x \<in> fst ` set m \<Longrightarrow> x \<in> fst ` set (asks b)"
  shows "keys_inv (b\<lparr>asks := m\<rparr>)"
proof -
  from assms(1) have sb: "side_ok (bids b)" and sa: "side_ok (asks b)" and nc: "noncross b"
    by (simp_all add: keys_inv_def)
  have "keys_below (bids b) (asks b)" using noncross_iff [OF sb sa] nc by simp
  then have "keys_below (bids b) m" using assms(3) unfolding keys_below_def by blast
  then have "noncross (b\<lparr>asks := m\<rparr>)"
    using noncross_iff [of "b\<lparr>asks := m\<rparr>"] sb assms(2) by simp
  then show ?thesis using assms(1,2) by (simp add: keys_inv_def tick_ok_def)
qed

lemma keys_inv_bids_update:
  assumes "keys_inv b" "side_ok m" "\<And>x. x \<in> fst ` set m \<Longrightarrow> x \<in> fst ` set (bids b)"
  shows "keys_inv (b\<lparr>bids := m\<rparr>)"
proof -
  from assms(1) have sb: "side_ok (bids b)" and sa: "side_ok (asks b)" and nc: "noncross b"
    by (simp_all add: keys_inv_def)
  have "keys_below (bids b) (asks b)" using noncross_iff [OF sb sa] nc by simp
  then have "keys_below m (asks b)" using assms(3) unfolding keys_below_def by blast
  then have "noncross (b\<lparr>bids := m\<rparr>)"
    using noncross_iff [of "b\<lparr>bids := m\<rparr>"] sa assms(2) by simp
  then show ?thesis using assms(1,2) by (simp add: keys_inv_def tick_ok_def)
qed

lemma keys_inv_rest_bid:
  assumes inv: "keys_inv b" and p: "isfinite p"
    and pass: "asks b = [] \<or> \<not> dge p (fst (hd (asks b)))"
  shows "keys_inv (b\<lparr>bids := index_add (bids b) p q\<rparr>)"
proof -
  note pn = isfinite_not_nan [OF p]
  from inv have sb: "side_ok (bids b)" and sa: "side_ok (asks b)"
    and nc: "noncross b" and tk: "tick_ok b"
    by (simp_all add: keys_inv_def)
  have below: "dlt p y" if y: "y \<in> fst ` set (asks b)" for y
  proof -
    from y have ne: "asks b \<noteq> []" by auto
    then have "fst (hd (asks b)) \<in> fst ` set (asks b)" by simp
    then have hn: "\<not> isnan (fst (hd (asks b)))" using sa by (auto simp: side_ok_def list_all_iff)
    from pass ne have "\<not> dle (fst (hd (asks b))) p" by (simp add: dge_def)
    then have "dlt p (fst (hd (asks b)))" using hn pn by (intro not_dle_dlt)
    then show ?thesis using side_ok_hd [OF sa y] by (auto intro: dlt_trans)
  qed
  have keys: "fst ` set (index_add (bids b) p q) = insert p (fst ` set (bids b))"
    using keys_index_add [OF sb pn, of q] by simp
  have s': "side_ok (index_add (bids b) p q)" by (rule side_ok_index_add [OF sb pn])
  have kb: "keys_below (bids b) (asks b)" using noncross_iff [OF sb sa] nc by simp
  have "keys_below (index_add (bids b) p q) (asks b)"
    using kb below unfolding keys_below_def keys by blast
  then have "noncross (b\<lparr>bids := index_add (bids b) p q\<rparr>)"
    using noncross_iff [of "b\<lparr>bids := index_add (bids b) p q\<rparr>"] sa s' by simp
  then show ?thesis using s' sa tk by (simp add: keys_inv_def tick_ok_def)
qed

lemma keys_inv_rest_ask:
  assumes inv: "keys_inv b" and p: "isfinite p"
    and pass: "bids b = [] \<or> \<not> dle p (fst (last (bids b)))"
  shows "keys_inv (b\<lparr>asks := index_add (asks b) p q\<rparr>)"
proof -
  note pn = isfinite_not_nan [OF p]
  from inv have sb: "side_ok (bids b)" and sa: "side_ok (asks b)"
    and nc: "noncross b" and tk: "tick_ok b"
    by (simp_all add: keys_inv_def)
  have above: "dlt x p" if x: "x \<in> fst ` set (bids b)" for x
  proof -
    from x have ne: "bids b \<noteq> []" by auto
    then have "fst (last (bids b)) \<in> fst ` set (bids b)" by simp
    then have hn: "\<not> isnan (fst (last (bids b)))" using sb by (auto simp: side_ok_def list_all_iff)
    from pass ne have "\<not> dle p (fst (last (bids b)))" by simp
    then have "dlt (fst (last (bids b))) p" using hn pn by (intro not_dle_dlt)
    then show ?thesis using side_ok_last [OF sb x] by (auto intro: dlt_trans)
  qed
  have keys: "fst ` set (index_add (asks b) p q) = insert p (fst ` set (asks b))"
    using keys_index_add [OF sa pn, of q] by simp
  have s': "side_ok (index_add (asks b) p q)" by (rule side_ok_index_add [OF sa pn])
  have kb: "keys_below (bids b) (asks b)" using noncross_iff [OF sb sa] nc by simp
  have "keys_below (bids b) (index_add (asks b) p q)"
    using kb above unfolding keys_below_def keys by blast
  then have "noncross (b\<lparr>asks := index_add (asks b) p q\<rparr>)"
    using noncross_iff [of "b\<lparr>asks := index_add (asks b) p q\<rparr>"] sb s' by simp
  then show ?thesis using s' sb tk by (simp add: keys_inv_def tick_ok_def)
qed

lemma book_apply_rejected: "\<not> accepted e \<Longrightarrow> book_apply b e = (False, b)"
  by (cases "ev_type e"; cases "ev_side e"; auto simp add: book_apply_def Let_def accepted_def)

lemma dle_not_nan: "dle a b \<Longrightarrow> \<not> isnan a \<and> \<not> isnan b"
  by (cases a; cases b) simp_all

lemma book_apply_add_bid:
  "accepted e \<Longrightarrow> ev_type e = Add \<Longrightarrow> ev_side e = Bid \<Longrightarrow>
   book_apply b e =
     (True, if marketable b e then b\<lparr>asks := consume_best_ask (asks b) (ev_quantity e)\<rparr>
            else b\<lparr>bids := index_add (bids b) (round_to_tick b (ev_price e)) (ev_quantity e)\<rparr>)"
  by (auto simp add: book_apply_def Let_def accepted_def marketable_def book_top_def add_level_def
        dge_def dest: dle_not_nan)

lemma book_apply_add_ask:
  "accepted e \<Longrightarrow> ev_type e = Add \<Longrightarrow> ev_side e = Ask \<Longrightarrow>
   book_apply b e =
     (True, if marketable b e then b\<lparr>bids := consume_best_bid (bids b) (ev_quantity e)\<rparr>
            else b\<lparr>asks := index_add (asks b) (round_to_tick b (ev_price e)) (ev_quantity e)\<rparr>)"
  by (auto simp add: book_apply_def Let_def accepted_def marketable_def book_top_def add_level_def
        dge_def dest: dle_not_nan)

lemma book_apply_cancel:
  "accepted e \<Longrightarrow> ev_type e = Cancel \<Longrightarrow>
   book_apply b e =
     (True, case ev_side e of
              Bid \<Rightarrow> b\<lparr>bids := find_sub (bids b) (round_to_tick b (ev_price e)) (ev_quantity e)\<rparr>
            | Ask \<Rightarrow> b\<lparr>asks := find_sub (asks b) (round_to_tick b (ev_price e)) (ev_quantity e)\<rparr>)"
  by (cases "ev_side e")
     (auto simp add: book_apply_def Let_def accepted_def remove_level_qty_def)

lemma book_apply_market:
  "accepted e \<Longrightarrow> ev_type e = Market \<Longrightarrow>
   book_apply b e =
     (True, case ev_side e of
              Bid \<Rightarrow> b\<lparr>asks := consume_best_ask (asks b) (ev_quantity e)\<rparr>
            | Ask \<Rightarrow> b\<lparr>bids := consume_best_bid (bids b) (ev_quantity e)\<rparr>)"
  by (cases "ev_side e") (auto simp add: book_apply_def Let_def accepted_def)

lemma fst_book_apply: "fst (book_apply b e) = accepted e"
  by (cases "ev_type e"; cases "ev_side e";
      auto simp add: book_apply_def Let_def accepted_def)

lemma keys_inv_step:
  assumes inv: "keys_inv b"
  shows "keys_inv (snd (book_apply b e))"
proof (cases "accepted e")
  case False
  then show ?thesis using inv by (simp add: book_apply_rejected)
next
  case True
  from inv have sb: "side_ok (bids b)" and sa: "side_ok (asks b)" and tk: "tick_ok b"
    by (simp_all add: keys_inv_def)
  let ?px = "round_to_tick b (ev_price e)"
  let ?q = "ev_quantity e"
  have cons_a: "keys_inv (b\<lparr>asks := consume_best_ask (asks b) ?q\<rparr>)"
    by (rule keys_inv_asks_update [OF inv side_ok_consume_best_ask [OF sa] keys_consume_best_ask])
  have cons_b: "keys_inv (b\<lparr>bids := consume_best_bid (bids b) ?q\<rparr>)"
    by (rule keys_inv_bids_update [OF inv side_ok_consume_best_bid [OF sb] keys_consume_best_bid])
  show ?thesis
  proof (cases "ev_type e")
    case Add
    with True have pf: "isfinite (ev_price e)" by (simp add: accepted_def)
    note pxf = round_to_tick_finite [OF tk pf]
    show ?thesis
    proof (cases "marketable b e")
      case True
      then show ?thesis using Add cons_a cons_b \<open>accepted e\<close>
        by (cases "ev_side e") (simp_all add: book_apply_add_bid book_apply_add_ask)
    next
      case False
      show ?thesis
      proof (cases "ev_side e")
        case Bid
        with False Add have pass: "asks b = [] \<or> \<not> dge ?px (fst (hd (asks b)))"
          by (auto simp: marketable_def)
        have "keys_inv (b\<lparr>bids := index_add (bids b) ?px ?q\<rparr>)"
          by (rule keys_inv_rest_bid [OF inv pxf pass])
        then show ?thesis using Add Bid False \<open>accepted e\<close> by (simp add: book_apply_add_bid)
      next
        case Ask
        with False Add have pass: "bids b = [] \<or> \<not> dle ?px (fst (last (bids b)))"
          by (auto simp: marketable_def)
        have "keys_inv (b\<lparr>asks := index_add (asks b) ?px ?q\<rparr>)"
          by (rule keys_inv_rest_ask [OF inv pxf pass])
        then show ?thesis using Add Ask False \<open>accepted e\<close> by (simp add: book_apply_add_ask)
      qed
    qed
  next
    case Cancel
    have "keys_inv (b\<lparr>bids := find_sub (bids b) ?px ?q\<rparr>)"
      by (rule keys_inv_bids_update [OF inv side_ok_find_sub [OF sb] keys_find_sub])
    moreover have "keys_inv (b\<lparr>asks := find_sub (asks b) ?px ?q\<rparr>)"
      by (rule keys_inv_asks_update [OF inv side_ok_find_sub [OF sa] keys_find_sub])
    ultimately show ?thesis using Cancel True
      by (cases "ev_side e") (simp_all add: book_apply_cancel)
  next
    case Market
    then show ?thesis using True cons_a cons_b
      by (cases "ev_side e") (simp_all add: book_apply_market)
  qed
qed

lemma qty_pos_step:
  assumes inv: "keys_inv b" and qb: "qty_pos (bids b)" and qa: "qty_pos (asks b)"
    and nov: "\<not> add_overflows b e"
  shows "qty_pos (bids (snd (book_apply b e))) \<and> qty_pos (asks (snd (book_apply b e)))"
proof (cases "accepted e")
  case False
  then show ?thesis using qb qa by (simp add: book_apply_rejected)
next
  case True
  then have q: "1 \<le> sint (ev_quantity e)" by (simp add: accepted_def)
  from inv have sb: "side_ok (bids b)" and sa: "side_ok (asks b)" and tk: "tick_ok b"
    by (simp_all add: keys_inv_def)
  let ?px = "round_to_tick b (ev_price e)"
  let ?q = "ev_quantity e"
  note cons_a = qty_pos_consume_best_ask [OF qa, of ?q]
  note cons_b = qty_pos_consume_best_bid [OF qb, of ?q]
  show ?thesis
  proof (cases "ev_type e")
    case Add
    with True have pf: "isfinite (ev_price e)" by (simp add: accepted_def)
    note pn = isfinite_not_nan [OF round_to_tick_finite [OF tk pf]]
    show ?thesis
    proof (cases "marketable b e")
      case True
      then show ?thesis using Add cons_a cons_b qa qb \<open>accepted e\<close>
        by (cases "ev_side e") (simp_all add: book_apply_add_bid book_apply_add_ask)
    next
      case False
      with nov Add \<open>accepted e\<close>
      have fit: "sint (level_qty (side_of (ev_side e) b) ?px) + sint ?q \<le> 2147483647"
        by (simp add: add_overflows_def fst_book_apply)
      show ?thesis
      proof (cases "ev_side e")
        case Bid
        have "qty_pos (index_add (bids b) ?px ?q)"
          using fit Bid by (intro qty_pos_index_add [OF sb pn qb q]) (simp add: side_of_def)
        then show ?thesis using Add Bid False qa \<open>accepted e\<close> by (simp add: book_apply_add_bid)
      next
        case Ask
        have "qty_pos (index_add (asks b) ?px ?q)"
          using fit Ask by (intro qty_pos_index_add [OF sa pn qa q]) (simp add: side_of_def)
        then show ?thesis using Add Ask False qb \<open>accepted e\<close> by (simp add: book_apply_add_ask)
      qed
    qed
  next
    case Cancel
    then show ?thesis
      using True qa qb qty_pos_find_sub [OF qb, of ?px ?q] qty_pos_find_sub [OF qa, of ?px ?q]
      by (cases "ev_side e") (simp_all add: book_apply_cancel)
  next
    case Market
    then show ?thesis using True cons_a cons_b qa qb
      by (cases "ev_side e") (simp_all add: book_apply_market)
  qed
qed

lemma book_inv_step: "book_inv b \<Longrightarrow> \<not> add_overflows b e \<Longrightarrow> book_inv (snd (book_apply b e))"
  using keys_inv_step [of b e] qty_pos_step [of b e] by (simp add: book_inv_def)

lemma keys_inv_run: "keys_inv b \<Longrightarrow> keys_inv (apply_all b es)"
  by (induction es arbitrary: b) (auto intro: keys_inv_step)

lemma book_inv_run: "book_inv b \<Longrightarrow> overflow_free b es \<Longrightarrow> book_inv (apply_all b es)"
  by (induction es arbitrary: b) (auto intro: book_inv_step)







subsection \<open>Market orders\<close>


lemmas book_eval =
  book_apply_def book_top_def round_to_tick_def round_half_away_def new_OrderBook_def
  add_level_def remove_level_qty_def mk_event_def dgt_def dge_def Let_def

lemma side_ok_eval:
  "side_ok ((k, v) # (k', v') # m) = (\<not> isnan k \<and> dlt k k' \<and> side_ok ((k', v') # m))"
  "side_ok [(k, v)] = (\<not> isnan k)"
  by (auto simp: side_ok_Cons intro: dlt_trans)


subsection \<open>Rejected events\<close>

text \<open>
  Claim C4. \<open>apply\<close> returns false exactly when the time is not finite, or the quantity is
  not positive, or the event is an Add or a Cancel whose price is not finite or is at most
  zero. A rejected event leaves the book (both side maps and the tick size) as it was, and
  the price of a Market event is never read: changing it changes nothing.
\<close>

theorem apply_false_iff:
  "(\<not> fst (book_apply b e)) =
     (\<not> isfinite (ev_t e) \<or> sint (ev_quantity e) \<le> 0 \<or>
      ((ev_type e = Add \<or> ev_type e = Cancel) \<and>
       (\<not> isfinite (ev_price e) \<or> dle (ev_price e) (Fin 0))))
   \<and> (\<not> fst (book_apply b e) \<longrightarrow> snd (book_apply b e) = b)
   \<and> (ev_type e = Market \<longrightarrow> book_apply b (e\<lparr>ev_price := p\<rparr>) = book_apply b e)"
  by (cases "ev_type e"; cases "ev_side e"; simp add: book_apply_def Let_def)

theorem apply_false_iff_witness:
  "\<not> fst (book_apply (new_OrderBook (Fin (1 / 10)))
            \<lparr>ev_t = PInf, ev_type = Market, ev_side = Bid, ev_price = Fin 0, ev_quantity = 5\<rparr>)
   \<and> snd (book_apply (new_OrderBook (Fin (1 / 10)))
            \<lparr>ev_t = PInf, ev_type = Market, ev_side = Bid, ev_price = Fin 0, ev_quantity = 5\<rparr>)
       = new_OrderBook (Fin (1 / 10))
   \<and> book_apply (new_OrderBook (Fin (1 / 10)))
         \<lparr>ev_t = PInf, ev_type = Market, ev_side = Bid, ev_price = NaN, ev_quantity = 5\<rparr>
       = book_apply (new_OrderBook (Fin (1 / 10)))
         \<lparr>ev_t = PInf, ev_type = Market, ev_side = Bid, ev_price = Fin 0, ev_quantity = 5\<rparr>"
  using apply_false_iff [of "new_OrderBook (Fin (1 / 10))"
      "\<lparr>ev_t = PInf, ev_type = Market, ev_side = Bid, ev_price = Fin 0, ev_quantity = 5\<rparr>" NaN]
  by simp

subsection \<open>Frame of apply\<close>

text \<open>
  Claim C10. \<open>apply\<close> never changes the tick size. A Cancel leaves the map of the side
  opposite to the event's side unchanged, and so does an Add that is not marketable.
  Whenever the opposite side's map differs after \<open>apply\<close>, the event was accepted and was
  a Market event or a marketable Add.
\<close>

theorem apply_frame:
  "tick_size (snd (book_apply b e)) = tick_size b
   \<and> (ev_type e = Cancel \<longrightarrow>
        side_of (opposite (ev_side e)) (snd (book_apply b e)) = side_of (opposite (ev_side e)) b)
   \<and> (ev_type e = Add \<and> \<not> marketable b e \<longrightarrow>
        side_of (opposite (ev_side e)) (snd (book_apply b e)) = side_of (opposite (ev_side e)) b)
   \<and> (side_of (opposite (ev_side e)) (snd (book_apply b e)) \<noteq> side_of (opposite (ev_side e)) b \<longrightarrow>
        fst (book_apply b e) \<and> (ev_type e = Market \<or> marketable b e))"
  by (cases "ev_type e"; cases "ev_side e";
      simp add: book_apply_def Let_def marketable_def side_of_def book_top_def)

theorem apply_frame_witness:
  "asks (snd (book_apply
      \<lparr>tick_size = Fin (1 / 10), bids = [(Fin 100, 50)], asks = [(Fin (201 / 2), 50)]\<rparr>
      (mk_event 1 Cancel Bid 100 20))) = [(Fin (201 / 2), 50)]
   \<and> \<not> marketable
      \<lparr>tick_size = Fin (1 / 10), bids = [(Fin 100, 50)], asks = [(Fin (201 / 2), 50)]\<rparr>
      (mk_event 1 Add Bid 100 20)
   \<and> asks (snd (book_apply
      \<lparr>tick_size = Fin (1 / 10), bids = [(Fin 100, 50)], asks = [(Fin (201 / 2), 50)]\<rparr>
      (mk_event 1 Add Bid 100 20))) = [(Fin (201 / 2), 50)]
   \<and> asks (snd (book_apply
      \<lparr>tick_size = Fin (1 / 10), bids = [(Fin 100, 50)], asks = [(Fin (201 / 2), 50)]\<rparr>
      (mk_event 1 Add Bid (201 / 2) 20))) \<noteq> [(Fin (201 / 2), 50)]
   \<and> marketable
      \<lparr>tick_size = Fin (1 / 10), bids = [(Fin 100, 50)], asks = [(Fin (201 / 2), 50)]\<rparr>
      (mk_event 1 Add Bid (201 / 2) 20)"
proof -
  let ?b = "\<lparr>tick_size = Fin (1 / 10), bids = [(Fin 100, 50)], asks = [(Fin (201 / 2), 50)]\<rparr>"
  have nm: "\<not> marketable ?b (mk_event 1 Add Bid 100 20)"
    by (simp add: marketable_def book_eval)
  have ch: "asks (snd (book_apply ?b (mk_event 1 Add Bid (201 / 2) 20))) \<noteq> [(Fin (201 / 2), 50)]"
    by (simp add: book_eval)
  from apply_frame [of ?b "mk_event 1 Cancel Bid 100 20"]
    apply_frame [of ?b "mk_event 1 Add Bid 100 20"]
    apply_frame [of ?b "mk_event 1 Add Bid (201 / 2) 20"] nm ch
  show ?thesis by (simp add: side_of_def mk_event_def)
qed

subsection \<open>Cancel\<close>

text \<open>
  Claim C7. A Cancel event with finite time, quantity \<open>q > 0\<close> and finite, strictly
  positive price is accepted on every well-formed book, and touches neither the opposite
  side nor the tick size. If the snapped price is not a level of the event's own side, the
  book is left as it was. If it is a level of quantity \<open>v\<close>, the level now holds \<open>v - q\<close>
  when that is positive and is erased otherwise, so that no stored quantity is ever zero or
  negative; every other level is untouched. For a level of quantity at least 1 the
  subtraction is exact.
\<close>

theorem cancel_semantics:
  assumes "ev_type e = Cancel" and "isfinite (ev_t e)" and "0 < sint (ev_quantity e)"
    and "isfinite (ev_price e)" and "dgt (ev_price e) (Fin 0)"
    and "tick_ok b" and "side_ok (side_of (ev_side e) b)"
  shows "fst (book_apply b e)
     \<and> side_of (opposite (ev_side e)) (snd (book_apply b e)) = side_of (opposite (ev_side e)) b
     \<and> tick_size (snd (book_apply b e)) = tick_size b
     \<and> side_ok (side_of (ev_side e) (snd (book_apply b e)))
     \<and> (case map_of (side_of (ev_side e) b) (round_to_tick b (ev_price e)) of
          None \<Rightarrow> snd (book_apply b e) = b
        | Some v \<Rightarrow>
            map_of (side_of (ev_side e) (snd (book_apply b e))) =
              (if sint (v - ev_quantity e) \<le> 0
               then (map_of (side_of (ev_side e) b)) (round_to_tick b (ev_price e) := None)
               else (map_of (side_of (ev_side e) b))
                      (round_to_tick b (ev_price e) \<mapsto> v - ev_quantity e))
            \<and> (1 \<le> sint v \<longrightarrow> sint (v - ev_quantity e) = sint v - sint (ev_quantity e)))"
proof -
  let ?px = "round_to_tick b (ev_price e)"
  let ?q = "ev_quantity e"
  have pos: "\<not> dle (ev_price e) (Fin 0)"
    using assms(4,5) by (cases "ev_price e") (simp_all add: dgt_def)
  have acc: "accepted e" using assms(2-4) pos by (simp add: accepted_def)
  have pn: "\<not> isnan ?px"
    by (rule isfinite_not_nan [OF round_to_tick_finite [OF assms(6) assms(4)]])
  have ex: "1 \<le> sint v \<Longrightarrow> sint (v - ?q) = sint v - sint ?q" for v
    using assms(3) by (simp add: sint_sub_pos)
  show ?thesis
  proof (cases "ev_side e")
    case Bid
    then have so: "side_ok (bids b)" using assms(7) by (simp add: side_of_def)
    show ?thesis
    proof (cases "map_of (bids b) ?px")
      case None
      then show ?thesis
        using Bid so find_sub_absent [OF so pn None, of ?q]
        by (simp add: book_apply_cancel [OF acc assms(1)] side_of_def)
    next
      case (Some v)
      then show ?thesis
        using Bid side_ok_find_sub [OF so, of ?px ?q] map_of_find_sub [OF so pn Some, of ?q] ex
        by (simp add: book_apply_cancel [OF acc assms(1)] side_of_def)
    qed
  next
    case Ask
    then have so: "side_ok (asks b)" using assms(7) by (simp add: side_of_def)
    show ?thesis
    proof (cases "map_of (asks b) ?px")
      case None
      then show ?thesis
        using Ask so find_sub_absent [OF so pn None, of ?q]
        by (simp add: book_apply_cancel [OF acc assms(1)] side_of_def)
    next
      case (Some v)
      then show ?thesis
        using Ask side_ok_find_sub [OF so, of ?px ?q] map_of_find_sub [OF so pn Some, of ?q] ex
        by (simp add: book_apply_cancel [OF acc assms(1)] side_of_def)
    qed
  qed
qed

theorem cancel_semantics_witness:
  "ev_type (mk_event 1 Cancel Bid (999 / 10) 4) = Cancel
   \<and> isfinite (ev_t (mk_event 1 Cancel Bid (999 / 10) 4))
   \<and> 0 < sint (ev_quantity (mk_event 1 Cancel Bid (999 / 10) 4))
   \<and> isfinite (ev_price (mk_event 1 Cancel Bid (999 / 10) 4))
   \<and> dgt (ev_price (mk_event 1 Cancel Bid (999 / 10) 4)) (Fin 0)
   \<and> tick_ok \<lparr>tick_size = Fin (1 / 10), bids = [(Fin (999 / 10), 10)], asks = []\<rparr>
   \<and> side_ok [(Fin (999 / 10), 10)]
   \<and> map_of [(Fin (999 / 10), 10 :: cint)] (Fin (999 / 10)) = Some 10
   \<and> map_of (bids (snd (book_apply
         \<lparr>tick_size = Fin (1 / 10), bids = [(Fin (999 / 10), 10)], asks = []\<rparr>
         (mk_event 1 Cancel Bid (999 / 10) 4)))) (Fin (999 / 10)) = Some 6
   \<and> sint (10 - 4 :: cint) = 10 - 4"
proof -
  let ?e = "mk_event 1 Cancel Bid (999 / 10) 4"
  let ?b = "\<lparr>tick_size = Fin (1 / 10), bids = [(Fin (999 / 10), 10)], asks = []\<rparr>"
  have h: "ev_type ?e = Cancel" "isfinite (ev_t ?e)" "0 < sint (ev_quantity ?e)"
    "isfinite (ev_price ?e)" "dgt (ev_price ?e) (Fin 0)" "tick_ok ?b"
    "side_ok (side_of (ev_side ?e) ?b)"
    by (simp_all add: mk_event_def tick_ok_def dgt_def side_of_def side_ok_eval)
  have px: "round_to_tick ?b (ev_price ?e) = Fin (999 / 10)"
    by (simp add: book_eval)
  from cancel_semantics [OF h] h px
  show ?thesis by (simp add: mk_event_def side_of_def)
qed

subsection \<open>Reachable books\<close>

text \<open>
  The statement of claim C1 about quantities fails when an \<open>int\<close> overflows: two Adds of
  \<open>2147483647\<close> at one price leave a level whose stored quantity is \<open>-2\<close>.
\<close>

theorem level_quantity_counterexample:
  "bids (apply_all (new_OrderBook (Fin (1 / 10)))
          [mk_event 0 Add Bid 1 2147483647, mk_event 0 Add Bid 1 2147483647]) = [(Fin 1, - 2)]
   \<and> sint (- 2 :: cint) = - 2
   \<and> \<not> qty_pos (bids (apply_all (new_OrderBook (Fin (1 / 10)))
          [mk_event 0 Add Bid 1 2147483647, mk_event 0 Add Bid 1 2147483647]))"
  by (simp add: book_eval qty_pos_def)

text \<open>
  Claim C1, amended. For every book reached from a freshly constructed book by a finite
  sequence of \<open>apply\<close> calls with arbitrary events, the best bid is strictly below the best
  ask whenever both sides are non-empty; if moreover no resting Add of the sequence
  pushes a level's quantity above \<open>2147483647\<close> (\<open>overflow_free\<close>), every stored level has
  quantity at least 1. An accepted Add whose snapped price crosses or touches the opposite
  best is run against the opposite side by the consumption loop and leaves its own side
  untouched.
\<close>

theorem book_invariant:
  "(overflow_free (new_OrderBook ts) es \<longrightarrow>
      (\<forall>l \<in> set (bids (apply_all (new_OrderBook ts) es))
            \<union> set (asks (apply_all (new_OrderBook ts) es)). 1 \<le> sint (snd l)))
   \<and> (\<forall>x y. best_bid_price (book_top (apply_all (new_OrderBook ts) es)) = Some x
           \<and> best_ask_price (book_top (apply_all (new_OrderBook ts) es)) = Some y
          \<longrightarrow> dlt x y)
   \<and> (accepted e \<and> marketable b e \<longrightarrow>
        fst (book_apply b e)
        \<and> side_of (ev_side e) (snd (book_apply b e)) = side_of (ev_side e) b
        \<and> side_of (opposite (ev_side e)) (snd (book_apply b e)) =
            (case ev_side e of
               Bid \<Rightarrow> consume_best_ask (asks b) (ev_quantity e)
             | Ask \<Rightarrow> consume_best_bid (bids b) (ev_quantity e)))"
proof (intro conjI impI allI)
  assume "overflow_free (new_OrderBook ts) es"
  then have "book_inv (apply_all (new_OrderBook ts) es)"
    by (rule book_inv_run [OF book_inv_new])
  then show "\<forall>l \<in> set (bids (apply_all (new_OrderBook ts) es))
            \<union> set (asks (apply_all (new_OrderBook ts) es)). 1 \<le> sint (snd l)"
    by (auto simp: book_inv_def qty_pos_def list_all_iff)
next
  fix x y
  assume xy: "best_bid_price (book_top (apply_all (new_OrderBook ts) es)) = Some x
           \<and> best_ask_price (book_top (apply_all (new_OrderBook ts) es)) = Some y"
  have "keys_inv (new_OrderBook ts)" using book_inv_new [of ts] by (simp add: book_inv_def)
  then have "noncross (apply_all (new_OrderBook ts) es)"
    using keys_inv_run [of "new_OrderBook ts" es] by (simp add: keys_inv_def)
  then show "dlt x y" using xy by (auto simp: noncross_def book_top_def split: if_splits)
next
  assume "accepted e \<and> marketable b e"
  then show "fst (book_apply b e)" by (simp add: fst_book_apply)
next
  assume a: "accepted e \<and> marketable b e"
  then have "ev_type e = Add" by (simp add: marketable_def)
  then show "side_of (ev_side e) (snd (book_apply b e)) = side_of (ev_side e) b"
    using a by (cases "ev_side e")
      (simp_all add: book_apply_add_bid book_apply_add_ask side_of_def)
next
  assume a: "accepted e \<and> marketable b e"
  then have "ev_type e = Add" by (simp add: marketable_def)
  then show "side_of (opposite (ev_side e)) (snd (book_apply b e)) =
            (case ev_side e of
               Bid \<Rightarrow> consume_best_ask (asks b) (ev_quantity e)
             | Ask \<Rightarrow> consume_best_bid (bids b) (ev_quantity e))"
    using a by (cases "ev_side e")
      (simp_all add: book_apply_add_bid book_apply_add_ask side_of_def)
qed

lemmas run_eval = book_eval add_overflows_def marketable_def level_qty_def side_of_def

theorem book_invariant_witness:
  "overflow_free (new_OrderBook (Fin (1 / 10)))
     [mk_event 0 Add Bid 100 50, mk_event 0 Add Ask (201 / 2) 50]
   \<and> bids (apply_all (new_OrderBook (Fin (1 / 10)))
       [mk_event 0 Add Bid 100 50, mk_event 0 Add Ask (201 / 2) 50]) = [(Fin 100, 50)]
   \<and> asks (apply_all (new_OrderBook (Fin (1 / 10)))
       [mk_event 0 Add Bid 100 50, mk_event 0 Add Ask (201 / 2) 50]) = [(Fin (201 / 2), 50)]
   \<and> 1 \<le> sint (50 :: cint)
   \<and> dlt (Fin 100) (Fin (201 / 2))
   \<and> accepted (mk_event 0 Add Bid (201 / 2) 20)
   \<and> marketable (apply_all (new_OrderBook (Fin (1 / 10)))
       [mk_event 0 Add Bid 100 50, mk_event 0 Add Ask (201 / 2) 50])
       (mk_event 0 Add Bid (201 / 2) 20)
   \<and> snd (book_apply (apply_all (new_OrderBook (Fin (1 / 10)))
       [mk_event 0 Add Bid 100 50, mk_event 0 Add Ask (201 / 2) 50])
       (mk_event 0 Add Bid (201 / 2) 20))
      = \<lparr>tick_size = Fin (1 / 10), bids = [(Fin 100, 50)], asks = [(Fin (201 / 2), 30)]\<rparr>"
proof -
  let ?es = "[mk_event 0 Add Bid 100 50, mk_event 0 Add Ask (201 / 2) 50]"
  let ?b = "apply_all (new_OrderBook (Fin (1 / 10))) ?es"
  let ?e = "mk_event 0 Add Bid (201 / 2) 20"
  have b: "?b = \<lparr>tick_size = Fin (1 / 10), bids = [(Fin 100, 50)], asks = [(Fin (201 / 2), 50)]\<rparr>"
    by (simp add: book_eval)
  have h1: "overflow_free (new_OrderBook (Fin (1 / 10))) ?es"
    by (simp add: run_eval)
  have h2: "accepted ?e \<and> marketable ?b ?e"
    unfolding b by (simp add: accepted_def run_eval)
  have r: "snd (book_apply ?b ?e)
      = \<lparr>tick_size = Fin (1 / 10), bids = [(Fin 100, 50)], asks = [(Fin (201 / 2), 30)]\<rparr>"
    unfolding b by (simp add: book_eval)
  from book_invariant [of "Fin (1 / 10)" ?es ?e ?b] h1 h2 b r
  show ?thesis by (simp add: book_top_def)
qed

subsection \<open>Metrics\<close>

lemma half_is_div_two: "dmul (Fin (1 / 2)) x = ddiv x (Fin 2)"
  by (cases x) (simp_all add: inf_of_sign_def)

lemma metrics_both:
  assumes "bids b \<noteq> []" and "asks b \<noteq> []" and "qty_pos (bids b)" and "qty_pos (asks b)"
  shows "metrics b =
     \<lparr>mid = Some (ddiv (dadd (fst (last (bids b))) (fst (hd (asks b)))) (Fin 2)),
      spread = Some (dsub (fst (hd (asks b))) (fst (last (bids b)))),
      imbalance_top1 = Some (ddiv
         (dsub (double_of_int (snd (last (bids b)))) (double_of_int (snd (hd (asks b)))))
         (dadd (double_of_int (snd (last (bids b)))) (double_of_int (snd (hd (asks b))))))\<rparr>"
proof -
  have "1 \<le> sint (snd (last (bids b)))" "1 \<le> sint (snd (hd (asks b)))"
    using assms by (auto simp: qty_pos_def list_all_iff)
  then have "dgt (dadd (double_of_int (snd (last (bids b)))) (double_of_int (snd (hd (asks b)))))
               (Fin 0)"
    by (simp add: double_of_int_def dgt_def del: of_int_sint flip: of_int_add)
  then show ?thesis using assms(1,2)
    by (simp add: metrics_def book_top_def Let_def half_is_div_two)
qed

lemma metrics_one_empty:
  "bids b = [] \<or> asks b = [] \<Longrightarrow> metrics b = \<lparr>mid = None, spread = None, imbalance_top1 = None\<rparr>"
  by (auto simp: metrics_def book_top_def Let_def)

text \<open>
  The statement of claim C8 for every reachable book fails after an \<open>int\<close> overflow: with
  a best bid level holding \<open>-2\<close> and a best ask level holding 1, the mid is present and
  the imbalance is absent.
\<close>

theorem metrics_presence_counterexample:
  "bids (apply_all (new_OrderBook (Fin (1 / 10)))
      [mk_event 0 Add Bid 1 2147483647, mk_event 0 Add Bid 1 2147483647,
       mk_event 0 Add Ask 2 1]) = [(Fin 1, - 2)]
   \<and> asks (apply_all (new_OrderBook (Fin (1 / 10)))
      [mk_event 0 Add Bid 1 2147483647, mk_event 0 Add Bid 1 2147483647,
       mk_event 0 Add Ask 2 1]) = [(Fin 2, 1)]
   \<and> mid (metrics (apply_all (new_OrderBook (Fin (1 / 10)))
      [mk_event 0 Add Bid 1 2147483647, mk_event 0 Add Bid 1 2147483647,
       mk_event 0 Add Ask 2 1])) = Some (Fin (3 / 2))
   \<and> imbalance_top1 (metrics (apply_all (new_OrderBook (Fin (1 / 10)))
      [mk_event 0 Add Bid 1 2147483647, mk_event 0 Add Bid 1 2147483647,
       mk_event 0 Add Ask 2 1])) = None"
  by (simp add: book_eval metrics_def double_of_int_def)

text \<open>
  Claim C8, amended. For every book reached from a freshly constructed book by a
  sequence of \<open>apply\<close> calls in which no resting Add pushes a level's quantity above
  \<open>2147483647\<close>, \<open>metrics\<close> returns mid, spread and imbalance all present if and only if both
  sides are non-empty. When both are non-empty, \<open>mid = (best_bid + best_ask) / 2\<close>,
  \<open>spread = best_ask - best_bid\<close> and \<open>imbalance = (qb - qa) / (qb + qa)\<close> for the best-level
  quantities \<open>qb\<close> and \<open>qa\<close>, in the arithmetic of doubles; when a side is empty, all three
  are absent.
\<close>

theorem metrics_reachable:
  assumes "overflow_free (new_OrderBook ts) es"
  shows "((mid (metrics (apply_all (new_OrderBook ts) es)) \<noteq> None
           \<and> spread (metrics (apply_all (new_OrderBook ts) es)) \<noteq> None
           \<and> imbalance_top1 (metrics (apply_all (new_OrderBook ts) es)) \<noteq> None)
          = (bids (apply_all (new_OrderBook ts) es) \<noteq> []
             \<and> asks (apply_all (new_OrderBook ts) es) \<noteq> []))
     \<and> (bids (apply_all (new_OrderBook ts) es) \<noteq> []
          \<and> asks (apply_all (new_OrderBook ts) es) \<noteq> [] \<longrightarrow>
        metrics (apply_all (new_OrderBook ts) es) =
          \<lparr>mid = Some (ddiv (dadd (fst (last (bids (apply_all (new_OrderBook ts) es))))
                               (fst (hd (asks (apply_all (new_OrderBook ts) es))))) (Fin 2)),
           spread = Some (dsub (fst (hd (asks (apply_all (new_OrderBook ts) es))))
                               (fst (last (bids (apply_all (new_OrderBook ts) es))))),
           imbalance_top1 = Some (ddiv
             (dsub (double_of_int (snd (last (bids (apply_all (new_OrderBook ts) es)))))
                   (double_of_int (snd (hd (asks (apply_all (new_OrderBook ts) es))))))
             (dadd (double_of_int (snd (last (bids (apply_all (new_OrderBook ts) es)))))
                   (double_of_int (snd (hd (asks (apply_all (new_OrderBook ts) es)))))))\<rparr>)
     \<and> (bids (apply_all (new_OrderBook ts) es) = []
          \<or> asks (apply_all (new_OrderBook ts) es) = [] \<longrightarrow>
        metrics (apply_all (new_OrderBook ts) es) =
          \<lparr>mid = None, spread = None, imbalance_top1 = None\<rparr>)"
proof -
  let ?b = "apply_all (new_OrderBook ts) es"
  have "book_inv ?b" using assms by (rule book_inv_run [OF book_inv_new])
  then have q: "qty_pos (bids ?b)" "qty_pos (asks ?b)" by (simp_all add: book_inv_def)
  show ?thesis
  proof (cases "bids ?b \<noteq> [] \<and> asks ?b \<noteq> []")
    case True
    then show ?thesis using metrics_both [of ?b] q by simp
  next
    case False
    then show ?thesis using metrics_one_empty [of ?b] by auto
  qed
qed

theorem metrics_reachable_witness:
  "overflow_free (new_OrderBook (Fin (1 / 10)))
     [mk_event 0 Add Bid 100 50, mk_event 0 Add Ask (201 / 2) 30]
   \<and> metrics (apply_all (new_OrderBook (Fin (1 / 10)))
       [mk_event 0 Add Bid 100 50, mk_event 0 Add Ask (201 / 2) 30])
     = \<lparr>mid = Some (Fin (401 / 4)), spread = Some (Fin (1 / 2)),
        imbalance_top1 = Some (Fin (1 / 4))\<rparr>
   \<and> overflow_free (new_OrderBook (Fin (1 / 10))) [mk_event 0 Add Bid 100 50]
   \<and> metrics (apply_all (new_OrderBook (Fin (1 / 10))) [mk_event 0 Add Bid 100 50])
     = \<lparr>mid = None, spread = None, imbalance_top1 = None\<rparr>"
proof -
  let ?es = "[mk_event 0 Add Bid 100 50, mk_event 0 Add Ask (201 / 2) 30]"
  let ?b = "apply_all (new_OrderBook (Fin (1 / 10))) ?es"
  have b: "?b = \<lparr>tick_size = Fin (1 / 10), bids = [(Fin 100, 50)], asks = [(Fin (201 / 2), 30)]\<rparr>"
    by (simp add: book_eval)
  have b1: "apply_all (new_OrderBook (Fin (1 / 10))) [mk_event 0 Add Bid 100 50]
     = \<lparr>tick_size = Fin (1 / 10), bids = [(Fin 100, 50)], asks = []\<rparr>"
    by (simp add: book_eval)
  have h: "overflow_free (new_OrderBook (Fin (1 / 10))) ?es"
    by (simp add: run_eval)
  have h1: "overflow_free (new_OrderBook (Fin (1 / 10))) [mk_event 0 Add Bid 100 50]"
    by (simp add: run_eval)
  from metrics_reachable [OF h] metrics_reachable [OF h1] h h1
  show ?thesis unfolding b b1 by (simp add: double_of_int_def dsub_def)
qed

lemma fin_pos_iff: "fin_pos x = (\<exists>r. x = Fin r \<and> 0 < r)"
  by (cases x) (auto simp: fin_pos_def)

lemma fin_nonneg_iff: "fin_nonneg x = (\<exists>r. x = Fin r \<and> 0 \<le> r)"
  by (cases x) (auto simp: fin_nonneg_def)

lemma refresh_simps [simp]:
  "h_s (refresh st i x) = (h_s st)[i := x]"
  "h_lambda (refresh st i x) = (h_lambda st)[i := clamp0 (dadd (h_mu st ! i) x)]"
  "h_mu (refresh st i x) = h_mu st"
  "h_w (refresh st i x) = h_w st"
  "h_dim (refresh st i x) = h_dim st"
  "h_alpha (refresh st i x) = h_alpha st"
  "h_beta (refresh st i x) = h_beta st"
  "h_last_time (refresh st i x) = h_last_time st"
  "h_rng (refresh st i x) = h_rng st"
  "h_qty_min (refresh st i x) = h_qty_min st"
  "h_qty_max (refresh st i x) = h_qty_max st"
  by (simp_all add: refresh_def Let_def clamp0_def)

text \<open>What a loop of \<open>refresh\<close> over the first \<open>k\<close> indices has done.\<close>

lemma fold_refresh_upto:
  "k \<le> n \<Longrightarrow> length (h_s st) = n \<Longrightarrow> length (h_lambda st) = n \<Longrightarrow>
   (let st' = fold (\<lambda>i st'. refresh st' i (f i (h_s st' ! i))) [0..<k] st in
    length (h_s st') = n \<and> length (h_lambda st') = n \<and>
    (\<forall>i<n. h_s st' ! i = (if i < k then f i (h_s st ! i) else h_s st ! i) \<and>
           h_lambda st' ! i =
             (if i < k then clamp0 (dadd (h_mu st ! i) (f i (h_s st ! i))) else h_lambda st ! i)) \<and>
    h_mu st' = h_mu st \<and> h_w st' = h_w st \<and> h_dim st' = h_dim st \<and>
    h_alpha st' = h_alpha st \<and> h_beta st' = h_beta st \<and> h_last_time st' = h_last_time st \<and>
    h_rng st' = h_rng st \<and> h_qty_min st' = h_qty_min st \<and> h_qty_max st' = h_qty_max st)"
proof (induction k)
  case 0
  then show ?case by simp
next
  case (Suc k)
  then have "k \<le> n" by simp
  from Suc.IH [OF this Suc.prems(2,3)] Suc.prems(1)
  show ?case by (simp add: Let_def nth_list_update less_Suc_eq)
qed

lemma fold_refresh:
  assumes "length (h_s st) = n" and "length (h_lambda st) = n"
    and "st' = fold (\<lambda>i st'. refresh st' i (f i (h_s st' ! i))) [0..<n] st"
  shows "length (h_s st') = n" "length (h_lambda st') = n"
    "\<And>i. i < n \<Longrightarrow> h_s st' ! i = f i (h_s st ! i)"
    "\<And>i. i < n \<Longrightarrow> h_lambda st' ! i = clamp0 (dadd (h_mu st ! i) (f i (h_s st ! i)))"
    "h_mu st' = h_mu st" "h_w st' = h_w st" "h_dim st' = h_dim st"
    "h_alpha st' = h_alpha st" "h_beta st' = h_beta st" "h_last_time st' = h_last_time st"
    "h_rng st' = h_rng st" "h_qty_min st' = h_qty_min st" "h_qty_max st' = h_qty_max st"
  using fold_refresh_upto [of n n st f, OF le_refl assms(1,2)] assms(3)
  by (simp_all add: Let_def)

lemma twi_fold_finite:
  "(\<And>i. i < n \<Longrightarrow> isfinite (w i) \<and> isfinite (l i)) \<Longrightarrow>
   fold (\<lambda>i sum. if dgt (l i) (Fin 0) then dadd sum (dmul (w i) (l i)) else sum) [0..<n] (Fin a)
     = Fin (a + (\<Sum>i<n. rv (w i) * max (rv (l i)) 0))"
proof (induction n)
  case 0
  then show ?case by simp
next
  case (Suc n)
  then have fin: "isfinite (w n)" "isfinite (l n)" by simp_all
  then obtain x y where xy: "w n = Fin x" "l n = Fin y" by (cases "w n"; cases "l n") auto
  show ?case using Suc.IH Suc.prems by (simp add: xy dgt_def max_def)
qed

lemma twi_fold_nan:
  "(\<And>i. i < n \<Longrightarrow> isnan (l i)) \<Longrightarrow>
   fold (\<lambda>i sum. if dgt (l i) (Fin 0) then dadd sum (dmul (w i) (l i)) else sum) [0..<n] x = x"
proof (induction n)
  case 0
  then show ?case by simp
next
  case (Suc n)
  then have "isnan (l n)" by simp
  then have "l n = NaN" by (cases "l n") auto
  then show ?case using Suc by (simp add: dgt_def)
qed

lemma twi_simps:
  "total_weighted_intensity (st\<lparr>h_rng := g\<rparr>) = total_weighted_intensity st"
  "total_weighted_intensity (st\<lparr>h_last_time := t\<rparr>) = total_weighted_intensity st"
  by (simp_all add: total_weighted_intensity_def cong: if_cong)

lemma intensity_ok_nth:
  assumes "intensity_ok st" and "i < 6"
  obtains m b x y where "h_mu st ! i = Fin m" "0 < m" "h_beta st ! i ! i = Fin b" "0 < b"
    "h_s st ! i = Fin x" "0 \<le> x" "h_w st ! i = Fin y" "0 < y" "h_lambda st ! i = Fin (m + x)"
proof -
  from assms have "fin_pos (h_mu st ! i)" "fin_pos (h_beta st ! i ! i)" "fin_nonneg (h_s st ! i)"
    "fin_pos (h_w st ! i)" and l: "h_lambda st ! i = dadd (h_mu st ! i) (h_s st ! i)"
    by (simp_all add: intensity_ok_def)
  then obtain m b x y where v: "h_mu st ! i = Fin m" "0 < m" "h_beta st ! i ! i = Fin b" "0 < b"
    "h_s st ! i = Fin x" "0 \<le> x" "h_w st ! i = Fin y" "0 < y"
    unfolding fin_pos_iff fin_nonneg_iff by blast
  with l have "h_lambda st ! i = Fin (m + x)" by simp
  with v show ?thesis by (rule that)
qed

lemma twi_weighted_sum:
  assumes "intensity_ok st"
  shows "total_weighted_intensity st = Fin (weighted_sum st)" and "0 < weighted_sum st"
proof -
  have fin: "isfinite (h_w st ! i) \<and> isfinite (h_lambda st ! i)" if "i < 6" for i
    using intensity_ok_nth [OF assms that] by (metis isfinite.simps(1))
  have d: "h_dim st = 6" using assms by (simp add: intensity_ok_def)
  show "total_weighted_intensity st = Fin (weighted_sum st)"
    unfolding total_weighted_intensity_def weighted_sum_def d
    using twi_fold_finite [of 6 "\<lambda>i. h_w st ! i" "\<lambda>i. h_lambda st ! i" 0] fin by simp
  have "0 < rv (h_w st ! i) * max (rv (h_lambda st ! i)) 0" if "i < 6" for i
    using intensity_ok_nth [OF assms that] by (metis add_pos_nonneg max.absorb1 less_imp_le mult_pos_pos rv.simps(1))
  then show "0 < weighted_sum st"
    unfolding weighted_sum_def by (intro sum_pos) (auto simp: lessThan_empty_iff)
qed

lemma dsub_pos: "dlt a c \<Longrightarrow> dlt (Fin 0) (dsub c a)"
  by (cases a; cases c) (simp_all add: dsub_def)


lemma decay_factor_props:
  assumes "0 < b" and "dlt (Fin 0) dt"
  shows "dexp (dmul (dneg (Fin b)) dt) = Fin (decay_factor (Fin b) dt)"
    and "0 \<le> decay_factor (Fin b) dt" and "decay_factor (Fin b) dt \<le> 1"
  using assms by (cases dt; simp add: decay_factor_def inf_of_sign_def mult_nonneg_nonneg less_imp_le)+


lemma dlt_not_dle: "dlt a b \<Longrightarrow> \<not> dle b a"
  by (cases a; cases b) simp_all

lemma decay_to_noop: "dle c (h_last_time st) \<Longrightarrow> decay_to st c = st"
  by (simp add: decay_to_def)

lemma decay_to_frame:
  "h_mu (decay_to st c) = h_mu st" "h_w (decay_to st c) = h_w st"
  "h_dim (decay_to st c) = h_dim st" "h_alpha (decay_to st c) = h_alpha st"
  "h_beta (decay_to st c) = h_beta st" "h_rng (decay_to st c) = h_rng st"
  "h_qty_min (decay_to st c) = h_qty_min st" "h_qty_max (decay_to st c) = h_qty_max st"
proof -
  have *: "h_mu (fold (\<lambda>i st'. refresh st' i (f st' i)) is st) = h_mu st
    \<and> h_w (fold (\<lambda>i st'. refresh st' i (f st' i)) is st) = h_w st
    \<and> h_dim (fold (\<lambda>i st'. refresh st' i (f st' i)) is st) = h_dim st
    \<and> h_alpha (fold (\<lambda>i st'. refresh st' i (f st' i)) is st) = h_alpha st
    \<and> h_beta (fold (\<lambda>i st'. refresh st' i (f st' i)) is st) = h_beta st
    \<and> h_rng (fold (\<lambda>i st'. refresh st' i (f st' i)) is st) = h_rng st
    \<and> h_qty_min (fold (\<lambda>i st'. refresh st' i (f st' i)) is st) = h_qty_min st
    \<and> h_qty_max (fold (\<lambda>i st'. refresh st' i (f st' i)) is st) = h_qty_max st"
    for f :: "'a Hawkes \<Rightarrow> nat \<Rightarrow> double" and "is" and st :: "'a Hawkes"
    by (induction "is" arbitrary: st) simp_all
  show "h_mu (decay_to st c) = h_mu st" "h_w (decay_to st c) = h_w st"
    "h_dim (decay_to st c) = h_dim st" "h_alpha (decay_to st c) = h_alpha st"
    "h_beta (decay_to st c) = h_beta st" "h_rng (decay_to st c) = h_rng st"
    "h_qty_min (decay_to st c) = h_qty_min st" "h_qty_max (decay_to st c) = h_qty_max st"
    using * [of "\<lambda>st' i. dmul (h_s st' ! i)
        (dexp (dmul (dneg (h_beta st ! i ! i)) (dsub c (h_last_time st))))" "[0..<h_dim st]" st]
    by (simp_all add: decay_to_def Let_def)
qed

lemma decay_to_after:
  assumes ok: "intensity_ok st" and lt: "dlt (h_last_time st) c"
  shows "intensity_ok (decay_to st c)"
    and "\<And>i. i < 6 \<Longrightarrow> h_lambda (decay_to st c) ! i =
           Fin (rv (h_mu st ! i) + rv (h_s st ! i) *
                  decay_factor (h_beta st ! i ! i) (dsub c (h_last_time st)))"
    and "h_last_time (decay_to st c) = c"
proof -
  let ?dt = "dsub c (h_last_time st)"
  let ?f = "\<lambda>i x. dmul x (dexp (dmul (dneg (h_beta st ! i ! i)) ?dt))"
  define st' where "st' = fold (\<lambda>i st'. refresh st' i (?f i (h_s st' ! i))) [0..<6] st"
  have d: "h_dim st = 6" and ls: "length (h_s st) = 6" and ll: "length (h_lambda st) = 6"
    using ok by (simp_all add: intensity_ok_def)
  have eq: "decay_to st c = st'\<lparr>h_last_time := c\<rparr>"
    using dlt_not_dle [OF lt] by (simp add: decay_to_def Let_def d st'_def)
  note F = fold_refresh [OF ls ll st'_def]
  note dtpos = dsub_pos [OF lt]
  have s': "h_s st' ! i = Fin (rv (h_s st ! i) * decay_factor (h_beta st ! i ! i) ?dt)"
    and l': "h_lambda st' ! i = Fin (rv (h_mu st ! i) + rv (h_s st ! i) *
                  decay_factor (h_beta st ! i ! i) ?dt)"
    and nn: "0 \<le> rv (h_s st ! i) * decay_factor (h_beta st ! i ! i) ?dt"
    if i: "i < 6" for i
  proof -
    from intensity_ok_nth [OF ok i] obtain m b x y where
      v: "h_mu st ! i = Fin m" "0 < m" "h_beta st ! i ! i = Fin b" "0 < b"
        "h_s st ! i = Fin x" "0 \<le> x" "h_w st ! i = Fin y" "0 < y" by metis
    note P = decay_factor_props [OF v(4) dtpos]
    show "h_s st' ! i = Fin (rv (h_s st ! i) * decay_factor (h_beta st ! i ! i) ?dt)"
      using F(3) [OF i] P(1) by (simp add: v)
    show nn: "0 \<le> rv (h_s st ! i) * decay_factor (h_beta st ! i ! i) ?dt"
      using v(6) P(2) by (simp add: v)
    then have "0 \<le> x * decay_factor (Fin b) ?dt" by (simp add: v(1,3,5,7))
    then have "0 < m + x * decay_factor (Fin b) ?dt" using v(2) by linarith
    then show "h_lambda st' ! i = Fin (rv (h_mu st ! i) + rv (h_s st ! i) *
                  decay_factor (h_beta st ! i ! i) ?dt)"
      using F(4) [OF i] P(1) by (simp add: v clamp0_def)
  qed
  show "h_last_time (decay_to st c) = c" by (simp add: eq)
  show "h_lambda (decay_to st c) ! i =
           Fin (rv (h_mu st ! i) + rv (h_s st ! i) *
                  decay_factor (h_beta st ! i ! i) (dsub c (h_last_time st)))" if "i < 6" for i
    using l' [OF that] by (simp add: eq)
  have "\<not> isnan c" using dlt_not_nan [OF lt] by simp
  moreover have "fin_pos (h_mu st' ! i) \<and> fin_pos (h_beta st' ! i ! i) \<and> fin_nonneg (h_s st' ! i) \<and>
             fin_pos (h_w st' ! i) \<and> h_lambda st' ! i = dadd (h_mu st' ! i) (h_s st' ! i)"
    if i: "i < 6" for i
  proof -
    from intensity_ok_nth [OF ok i] obtain m b x y where
      v: "h_mu st ! i = Fin m" "0 < m" "h_beta st ! i ! i = Fin b" "0 < b"
        "h_s st ! i = Fin x" "0 \<le> x" "h_w st ! i = Fin y" "0 < y" by metis
    show ?thesis using s' [OF i] l' [OF i] nn [OF i] v
      by (simp add: F fin_pos_def fin_nonneg_def)
  qed
  ultimately show "intensity_ok (decay_to st c)"
    using ok F(1,2) unfolding eq by (simp add: intensity_ok_def F)
qed

lemma intensity_ok_decay_to:
  assumes "intensity_ok st" and "\<not> isnan c"
  shows "intensity_ok (decay_to st c)"
proof (cases "dle c (h_last_time st)")
  case True
  then show ?thesis using assms by (simp add: decay_to_noop)
next
  case False
  have "\<not> isnan (h_last_time st)" using assms(1) by (simp add: intensity_ok_def)
  then have "dlt (h_last_time st) c" using False assms(2) by (intro not_dle_dlt)
  then show ?thesis by (rule decay_to_after(1) [OF assms(1)])
qed

lemma op_NaN [simp]: "dmul a NaN = NaN" "dadd a NaN = NaN" "dsub NaN a = NaN"
  by (cases a; simp add: dsub_def)+

lemma dle_refl_iff [simp]: "dle a a = (\<not> isnan a)"
  by (cases a) simp_all


lemma dle_trans: "dle a b \<Longrightarrow> dle b c \<Longrightarrow> dle a c"
  by (cases a; cases b; cases c) simp_all

lemma weighted_sum_le:
  assumes "\<And>i. i < 6 \<Longrightarrow> h_w a ! i = h_w b ! i \<and> 0 \<le> rv (h_w a ! i) \<and>
                 rv (h_lambda a ! i) \<le> rv (h_lambda b ! i)"
  shows "weighted_sum a \<le> weighted_sum b"
  unfolding weighted_sum_def
proof (rule sum_mono)
  fix i :: nat assume "i \<in> {..<6}"
  then have i: "i < 6" by simp
  have mx: "max (rv (h_lambda a ! i)) 0 \<le> max (rv (h_lambda b ! i)) 0"
    using assms [OF i] by (simp add: max_def)
  have w: "h_w a ! i = h_w b ! i" "0 \<le> rv (h_w b ! i)" using assms [OF i] by auto
  show "rv (h_w a ! i) * max (rv (h_lambda a ! i)) 0
               \<le> rv (h_w b ! i) * max (rv (h_lambda b ! i)) 0"
    unfolding w(1) by (rule mult_left_mono [OF mx w(2)])
qed

lemma decay_to_nan:
  assumes ok: "intensity_ok st"
  shows "total_weighted_intensity (decay_to st NaN) = Fin 0"
proof -
  let ?f = "\<lambda>i x. dmul x (dexp (dmul (dneg (h_beta st ! i ! i)) (dsub NaN (h_last_time st))))"
  define st' where "st' = fold (\<lambda>i st'. refresh st' i (?f i (h_s st' ! i))) [0..<6] st"
  have d: "h_dim st = 6" and ls: "length (h_s st) = 6" and ll: "length (h_lambda st) = 6"
    using ok by (simp_all add: intensity_ok_def)
  have eq: "decay_to st NaN = st'\<lparr>h_last_time := NaN\<rparr>"
    by (simp add: decay_to_def Let_def d st'_def)
  note F = fold_refresh [OF ls ll st'_def]
  have n: "isnan (h_lambda st' ! i)" if "i < 6" for i
    using F(4) [OF that] by (simp add: clamp0_def)
  have "total_weighted_intensity (decay_to st NaN) = total_weighted_intensity st'"
    by (simp add: eq twi_simps)
  also have "\<dots> = fold (\<lambda>i sum. if dgt (h_lambda st' ! i) (Fin 0)
                    then dadd sum (dmul (h_w st' ! i) (h_lambda st' ! i)) else sum)
          [0..<6] (Fin 0)"
    by (simp add: total_weighted_intensity_def F(7) d)
  also have "\<dots> = Fin 0"
    using n by (rule twi_fold_nan [of 6 "\<lambda>i. h_lambda st' ! i" "\<lambda>i. h_w st' ! i" "Fin 0"])
  finally show ?thesis .
qed

lemma decay_to_le:
  assumes ok: "intensity_ok st"
  shows "dle (total_weighted_intensity (decay_to st c)) (total_weighted_intensity st)"
proof -
  note T = twi_weighted_sum [OF ok]
  consider "dle c (h_last_time st)" | "isnan c" | "dlt (h_last_time st) c"
    using ok not_dle_dlt [of c "h_last_time st"] by (auto simp: intensity_ok_def)
  then show ?thesis
  proof cases
    case 1
    then show ?thesis using T by (simp add: decay_to_noop)
  next
    case 2
    then have "c = NaN" by (cases c) simp_all
    then show ?thesis using decay_to_nan [OF ok] T by (simp add: less_imp_le)
  next
    case 3
    note A = decay_to_after [OF ok 3]
    have "weighted_sum (decay_to st c) \<le> weighted_sum st"
    proof (rule weighted_sum_le)
      fix i :: nat assume i: "i < 6"
      from intensity_ok_nth [OF ok i] obtain m b x y where
        v: "h_mu st ! i = Fin m" "0 < m" "h_beta st ! i ! i = Fin b" "0 < b"
          "h_s st ! i = Fin x" "0 \<le> x" "h_w st ! i = Fin y" "0 < y"
          "h_lambda st ! i = Fin (m + x)" by metis
      have "x * decay_factor (Fin b) (dsub c (h_last_time st)) \<le> x * 1"
        using v(6) decay_factor_props(3) [OF v(4) dsub_pos [OF 3]] by (rule mult_left_mono [rotated])
      then show "h_w (decay_to st c) ! i = h_w st ! i \<and> 0 \<le> rv (h_w (decay_to st c) ! i) \<and>
                 rv (h_lambda (decay_to st c) ! i) \<le> rv (h_lambda st ! i)"
        using A(2) [OF i] v(8) by (simp add: decay_to_frame v(1,3,5,7,9))
    qed
    then show ?thesis using twi_weighted_sum(1) [OF A(1)] T by simp
  qed
qed


lemma intensity_ok_rng [simp]: "intensity_ok (st\<lparr>h_rng := g\<rparr>) = intensity_ok st"
  by (simp add: intensity_ok_def)

lemma decay_to_bounds:
  assumes ok: "intensity_ok st"
  obtains q where "total_weighted_intensity (decay_to st c) = Fin q" "0 \<le> q"
    "q \<le> weighted_sum st"
proof -
  note T = twi_weighted_sum [OF ok]
  consider "dle c (h_last_time st)" | "isnan c" | "dlt (h_last_time st) c"
    using ok not_dle_dlt [of c "h_last_time st"] by (auto simp: intensity_ok_def)
  then show ?thesis
  proof cases
    case 1
    then show ?thesis using T that [of "weighted_sum st"] by (simp add: decay_to_noop)
  next
    case 2
    then have "c = NaN" by (cases c) simp_all
    then show ?thesis using decay_to_nan [OF ok] T that [of 0] by simp
  next
    case 3
    note A = decay_to_after [OF ok 3]
    note T' = twi_weighted_sum [OF A(1)]
    have "dle (Fin (weighted_sum (decay_to st c))) (Fin (weighted_sum st))"
      using decay_to_le [OF ok, of c] T T' by simp
    then show ?thesis using T' that [of "weighted_sum (decay_to st c)"] by simp
  qed
qed

subsection \<open>Intensity between events\<close>


lemma all_less_6: "(\<forall>i<6. P i) = (P 0 \<and> P 1 \<and> P 2 \<and> P 3 \<and> P 4 \<and> P (5 :: nat))"
proof -
  have "(i < 6) = (i = 0 \<or> i = 1 \<or> i = 2 \<or> i = 3 \<or> i = 4 \<or> i = 5)" for i :: nat
    by auto
  then show ?thesis by auto
qed

lemma upt_6: "[0..<6] = [0, 1, 2, 3, 4, 5]"
  by (simp add: upt_rec)

lemma replicate_6: "replicate 6 x = [x, x, x, x, x, x]"
  by (simp add: eval_nat_numeral)

lemma main_process_eq:
  "main_process g = Inr \<lparr>h_dim = 6, h_mu = main_mu, h_alpha = main_alpha, h_beta = main_beta,
      h_s = replicate 6 (Fin 0), h_lambda = main_mu, h_w = replicate 6 (Fin 1),
      h_last_time = Fin 0, h_rng = g, h_qty_min = 5, h_qty_max = 50\<rparr>"
  by (simp add: main_process_def new_Hawkes_def upt_6 main_mu_def main_alpha_def main_beta_def
        Let_def replicate_6)

lemma intensity_ok_main:
  "intensity_ok \<lparr>h_dim = 6, h_mu = main_mu, h_alpha = main_alpha, h_beta = main_beta,
      h_s = replicate 6 (Fin 0), h_lambda = main_mu, h_w = replicate 6 (Fin 1),
      h_last_time = Fin 0, h_rng = g, h_qty_min = 5, h_qty_max = 50\<rparr>"
  by (simp add: intensity_ok_def all_less_6 main_mu_def main_beta_def fin_pos_def fin_nonneg_def
        replicate_6)


lemma wait_nonneg:
  assumes "dle (Fin 0) u" and "dlt u (Fin 1)" and "0 < p"
  shows "dle (Fin 0) (ddiv (dneg (dlog u)) (Fin p))"
proof (cases u)
  case (Fin x)
  then have x: "0 \<le> x" "x < 1" using assms by simp_all
  show ?thesis
  proof (cases "x = 0")
    case True
    then show ?thesis using assms(3) by (simp add: Fin)
  next
    case False
    then have "ln x \<le> 0" using x by (simp add: ln_le_zero_iff)
    then have "0 \<le> - ln x" by simp
    then have "0 \<le> - ln x / p" using assms(3) by (rule divide_nonneg_pos)
    then show ?thesis using False x assms(3) by (simp add: Fin)
  qed
qed (use assms in simp_all)

lemma time_advance:
  "time_ok t \<Longrightarrow> dle (Fin 0) w \<Longrightarrow> dle t (dadd t w) \<and> time_ok (dadd t w)"
  by (cases t; cases w) (simp_all add: time_ok_def)

lemma time_ok_not_nan: "time_ok t \<Longrightarrow> \<not> isnan t"
  by (cases t) (simp_all add: time_ok_def)

lemma time_ok_dle: "time_ok t \<Longrightarrow> dle t t' \<Longrightarrow> time_ok t'"
  by (cases t; cases t') (simp_all add: time_ok_def)

lemma engine_ok_rng [simp]: "engine_ok (st\<lparr>h_rng := g\<rparr>) = engine_ok st"
  by (simp add: engine_ok_def)

lemma engine_ok_decay_to: "engine_ok st \<Longrightarrow> \<not> isnan c \<Longrightarrow> engine_ok (decay_to st c)"
  by (simp add: engine_ok_def intensity_ok_decay_to decay_to_frame)

lemma propose_ok:
  assumes ok: "engine_ok st" and lib: "lib_ok L" and t: "time_ok current_time"
    and p: "propose L st current_time = (lambda_bar, cand_time, lambda_cand, u2, st2)"
  shows "dle current_time cand_time" and "time_ok cand_time" and "engine_ok st2"
proof -
  from ok have iok: "intensity_ok st" by (simp add: engine_ok_def)
  note T = twi_weighted_sum [OF iok]
  obtain u1 g1 where u: "uniform01 L (h_rng st) = (u1, g1)" by (cases "uniform01 L (h_rng st)")
  let ?c = "dadd current_time (ddiv (dneg (dlog u1)) (total_weighted_intensity st))"
  let ?st1 = "decay_to (st\<lparr>h_rng := g1\<rparr>) ?c"
  obtain v2 g2 where u': "uniform01 L (h_rng ?st1) = (v2, g2)"
    by (cases "uniform01 L (h_rng ?st1)")
  have pe: "propose L st current_time
      = (total_weighted_intensity st, ?c, total_weighted_intensity ?st1, v2, ?st1\<lparr>h_rng := g2\<rparr>)"
    using u u' by (simp add: propose_def Let_def twi_simps)
  have "dle (Fin 0) u1 \<and> dlt u1 (Fin 1)" using lib u by (auto simp: lib_ok_def dest: spec [of _ "h_rng st"])
  then have w: "dle (Fin 0) (ddiv (dneg (dlog u1)) (total_weighted_intensity st))"
    unfolding T(1) using T(2) by (intro wait_nonneg) simp_all
  note A = time_advance [OF t w]
  from p pe have c: "cand_time = ?c" and s2: "st2 = ?st1\<lparr>h_rng := g2\<rparr>" by auto
  show "dle current_time cand_time" "time_ok cand_time" using A c by simp_all
  have "engine_ok ?st1" using ok time_ok_not_nan [OF conjunct2 [OF A]]
    by (intro engine_ok_decay_to) simp_all
  then show "engine_ok st2" by (simp add: s2)
qed

lemma sample_walk_range: "sample_walk st u acc js \<in> set js \<union> {h_dim st - 1}"
  by (induction js arbitrary: acc) (auto simp: Let_def)

lemma sample_dimension_weighted_ok:
  assumes "engine_ok st" and "sample_dimension_weighted L st = (k, st')"
  shows "k < 6" and "engine_ok st'"
proof -
  have d: "h_dim st = 6" using assms(1) by (simp add: engine_ok_def intensity_ok_def)
  obtain x g where u: "uniform01 L (h_rng st) = (x, g)" by (cases "uniform01 L (h_rng st)")
  have "sample_walk st a (Fin 0) [0..<6] < 6" for a
    using sample_walk_range [of st a "Fin 0" "[0..<6]"] d by auto
  then show "k < 6" using assms(2) u
    by (auto simp: sample_dimension_weighted_def Let_def d split: if_splits)
  show "engine_ok st'" using assms u
    by (auto simp: sample_dimension_weighted_def Let_def split: if_splits)
qed

lemma engine_ok_excite:
  assumes ok: "engine_ok st" and k: "k < 6"
  shows "engine_ok (excite st k)"
proof -
  from ok have iok: "intensity_ok st" by (simp add: engine_ok_def)
  let ?f = "\<lambda>i x. dadd x (h_alpha st ! i ! k)"
  define st' where "st' = fold (\<lambda>i st'. refresh st' i (?f i (h_s st' ! i))) [0..<6] st"
  have d: "h_dim st = 6" and ls: "length (h_s st) = 6" and ll: "length (h_lambda st) = 6"
    using iok by (simp_all add: intensity_ok_def)
  have eq: "excite st k = st'" by (simp add: excite_def d st'_def)
  note F = fold_refresh [OF ls ll st'_def]
  have "fin_pos (h_mu st' ! i) \<and> fin_pos (h_beta st' ! i ! i) \<and> fin_nonneg (h_s st' ! i) \<and>
             fin_pos (h_w st' ! i) \<and> h_lambda st' ! i = dadd (h_mu st' ! i) (h_s st' ! i)"
    if i: "i < 6" for i
  proof -
    from intensity_ok_nth [OF iok i] obtain m b x y where
      v: "h_mu st ! i = Fin m" "0 < m" "h_beta st ! i ! i = Fin b" "0 < b"
        "h_s st ! i = Fin x" "0 \<le> x" "h_w st ! i = Fin y" "0 < y" by metis
    from ok i k have "fin_nonneg (h_alpha st ! i ! k)" by (simp add: engine_ok_def)
    then obtain a where a: "h_alpha st ! i ! k = Fin a" "0 \<le> a"
      unfolding fin_nonneg_iff by blast
    have "0 < m + (x + a)" using v(2,6) a(2) by linarith
    then show ?thesis using F(3) [OF i] F(4) [OF i] v a
      by (simp add: F fin_pos_def fin_nonneg_def clamp0_def)
  qed
  then have "intensity_ok st'" using iok F(1,2) by (simp add: intensity_ok_def F)
  then show ?thesis using ok unfolding eq by (simp add: engine_ok_def F)
qed

lemma accept_ok:
  assumes "engine_ok st" and "accept L st c = (e, st')"
  shows "ev_t e = c" and "engine_ok st'"
proof -
  obtain k st1 where s: "sample_dimension_weighted L st = (k, st1)"
    by (cases "sample_dimension_weighted L st")
  note S = sample_dimension_weighted_ok [OF assms(1) s]
  obtain q g where u: "uniform_int L (h_qty_min (excite st1 k)) (h_qty_max (excite st1 k))
      (h_rng (excite st1 k)) = (q, g)"
    by (cases "uniform_int L (h_qty_min (excite st1 k)) (h_qty_max (excite st1 k))
      (h_rng (excite st1 k))")
  from assms(2) s u have e: "ev_t e = c" and st': "st' = (excite st1 k)\<lparr>h_rng := g\<rparr>"
    by (auto simp: accept_def Let_def)
  show "ev_t e = c" by (rule e)
  show "engine_ok st'" using engine_ok_excite [OF S(2) S(1)] by (simp add: st')
qed

lemma next_loop_ok:
  assumes "lib_ok L"
  shows "engine_ok st \<Longrightarrow> time_ok current_time \<Longrightarrow> next_loop fuel L st current_time = Some (e, st')
     \<Longrightarrow> dle current_time (ev_t e) \<and> time_ok (ev_t e) \<and> engine_ok st'"
proof (induction fuel arbitrary: st current_time)
  case 0
  then show ?case by simp
next
  case (Suc fuel)
  from Suc.prems(1) have iok: "intensity_ok st" by (simp add: engine_ok_def)
  have pos: "dgt (total_weighted_intensity st) (Fin 0)"
    using twi_weighted_sum [OF iok] by (simp add: dgt_def)
  obtain lb ct lc u2 st2 where p: "propose L st current_time = (lb, ct, lc, u2, st2)"
    by (cases "propose L st current_time") auto
  note P = propose_ok [OF Suc.prems(1) assms Suc.prems(2) p]
  show ?case
  proof (cases "dle u2 (ddiv lc lb)")
    case True
    then have "accept L st2 ct = (e, st')" using Suc.prems(3) pos p by simp
    from accept_ok [OF P(3) this] P(1,2) show ?thesis by simp
  next
    case False
    then have "next_loop fuel L st2 ct = Some (e, st')" using Suc.prems(3) pos p by simp
    from Suc.IH [OF P(3) P(2) this] P(1) show ?thesis by (auto intro: dle_trans)
  qed
qed

lemma next_event_ok:
  assumes "lib_ok L" and "engine_ok st" and "time_ok t"
    and "next_event L fuel st t = Some (e, st')"
  shows "dle t (ev_t e)" and "time_ok (ev_t e)" and "engine_ok st'"
  using next_loop_ok [OF assms(1) engine_ok_decay_to [OF assms(2) time_ok_not_nan [OF assms(3)]]
      assms(3), of fuel e st'] assms(4)
  by (simp_all add: next_event_def)

text \<open>A pass whose second draw is at most the acceptance ratio returns.\<close>

lemma next_loop_accepts:
  assumes "engine_ok st" and "propose L st current_time = (lb, ct, lc, u2, st2)"
    and "dle u2 (ddiv lc lb)"
  shows "next_loop (Suc fuel) L st current_time = Some (accept L st2 ct)"
proof -
  from assms(1) have iok: "intensity_ok st" by (simp add: engine_ok_def)
  have "dgt (total_weighted_intensity st) (Fin 0)"
    using twi_weighted_sum [OF iok] by (simp add: dgt_def)
  then show ?thesis using assms(2,3) by simp
qed

lemma set_upt_6: "set [0..<6] = {i. i < 6}"
  by auto

lemma new_Hawkes_ok:
  assumes "params_ok mu alpha beta"
  shows "new_Hawkes mu alpha beta qty_min qty_max seeded =
     Inr \<lparr>h_dim = 6, h_mu = mu, h_alpha = alpha, h_beta = beta,
          h_s = replicate 6 (Fin 0), h_lambda = mu, h_w = replicate 6 (Fin 1),
          h_last_time = Fin 0, h_rng = seeded, h_qty_min = qty_min, h_qty_max = qty_max\<rparr>"
    and "engine_ok \<lparr>h_dim = 6, h_mu = mu, h_alpha = alpha, h_beta = beta,
          h_s = replicate 6 (Fin 0), h_lambda = mu, h_w = replicate 6 (Fin 1),
          h_last_time = Fin 0, h_rng = seeded, h_qty_min = qty_min, h_qty_max = qty_max\<rparr>"
proof -
  have mu: "\<not> (\<not> isfinite (mu ! i) \<or> dle (mu ! i) (Fin 0))" if "i < 6" for i
  proof -
    from assms that have "fin_pos (mu ! i)" by (simp add: params_ok_def)
    then show ?thesis unfolding fin_pos_iff by auto
  qed
  show "new_Hawkes mu alpha beta qty_min qty_max seeded =
     Inr \<lparr>h_dim = 6, h_mu = mu, h_alpha = alpha, h_beta = beta,
          h_s = replicate 6 (Fin 0), h_lambda = mu, h_w = replicate 6 (Fin 1),
          h_last_time = Fin 0, h_rng = seeded, h_qty_min = qty_min, h_qty_max = qty_max\<rparr>"
    using assms mu by (simp add: new_Hawkes_def params_ok_def Let_def set_upt_6)
  have "dadd (mu ! i) (Fin 0) = mu ! i" if "i < 6" for i
  proof -
    from assms that have "fin_pos (mu ! i)" by (simp add: params_ok_def)
    then show ?thesis unfolding fin_pos_iff by auto
  qed
  then show "engine_ok \<lparr>h_dim = 6, h_mu = mu, h_alpha = alpha, h_beta = beta,
          h_s = replicate 6 (Fin 0), h_lambda = mu, h_w = replicate 6 (Fin 1),
          h_last_time = Fin 0, h_rng = seeded, h_qty_min = qty_min, h_qty_max = qty_max\<rparr>"
    using assms
    by (simp add: engine_ok_def intensity_ok_def params_ok_def fin_pos_def fin_nonneg_def)
qed

lemma set_weights_ok:
  assumes "engine_ok st" and "set_weights st w = Inr st'"
  shows "engine_ok st'"
proof -
  from assms(1) have d: "h_dim st = 6" by (simp add: engine_ok_def intensity_ok_def)
  from assms(2) have len: "length w = 6"
    and st': "st' = st\<lparr>h_w := map (\<lambda>x. if \<not> isfinite x \<or> dle x (Fin 0) then Fin 1 else x) w\<rparr>"
    by (auto simp: set_weights_def d split: if_splits)
  have "fin_pos (if \<not> isfinite x \<or> dle x (Fin 0) then Fin 1 else x)" for x
    by (cases x) (auto simp: fin_pos_def)
  then show ?thesis using assms(1) len
    unfolding st' by (simp add: engine_ok_def intensity_ok_def)
qed

lemma constructed_ok:
  "params_ok mu alpha beta \<Longrightarrow> new_Hawkes mu alpha beta qty_min qty_max seeded = Inr st
   \<Longrightarrow> engine_ok st"
  using new_Hawkes_ok [where mu = mu and alpha = alpha and beta = beta and qty_min = qty_min
      and qty_max = qty_max and seeded = seeded]
  by auto

lemma reachable_engine_ok:
  assumes "lib_ok L" and "reachable L st"
  shows "engine_ok st"
  using assms(2)
proof (induction rule: reachable.induct)
  case constructed
  then show ?case by (rule constructed_ok)
next
  case weights_set
  then show ?case by (auto intro: set_weights_ok)
next
  case next_returned
  then show ?case using next_event_ok(3) [OF assms(1)] by blast
qed

lemma length_compute_weights: "length (compute_weights b) = 6"
  by (simp add: compute_weights_def Let_def book_top_def)

lemma place_time: "place L bb ba e rng = (e', rng') \<Longrightarrow> ev_t e' = ev_t e"
  by (cases "ev_type e"; cases "ev_side e")
     (auto simp: place_def Let_def split: if_splits prod.splits)

lemma sim_body_time: "sim_body L book e rng = Inr (book', e', rng') \<Longrightarrow> ev_t e' = ev_t e"
  by (auto simp: sim_body_def Let_def split: option.splits prod.splits dest: place_time)

lemma sim_iter_ok:
  assumes lib: "lib_ok L" and ok: "engine_ok (sim_process sim)" and t: "time_ok (sim_t sim)"
    and it: "sim_iter L fuel sim = Inr (e, sim')"
  shows "dle (sim_t sim) (ev_t e)" and "sim_t sim' = ev_t e"
    and "engine_ok (sim_process sim')" and "time_ok (sim_t sim')"
proof -
  from it obtain p1 where p1: "set_weights (sim_process sim) (compute_weights (sim_book sim)) = Inr p1"
    by (auto simp: sim_iter_def split: sum.splits)
  from it p1 obtain e0 p2 where n: "next_event L fuel p1 (sim_t sim) = Some (e0, p2)"
    by (auto simp: sim_iter_def split: option.splits)
  from it p1 n obtain book' rng' where
    b: "sim_body L (sim_book sim) e0 (sim_rng sim) = Inr (book', e, rng')"
    and s': "sim' = \<lparr>sim_book = book', sim_process = p2, sim_rng = rng', sim_t = ev_t e0\<rparr>"
    by (auto simp: sim_iter_def split: sum.splits)
  note N = next_event_ok [OF lib set_weights_ok [OF ok p1] t n]
  have te: "ev_t e = ev_t e0" by (rule sim_body_time [OF b])
  show "dle (sim_t sim) (ev_t e)" using N(1) te by simp
  show "sim_t sim' = ev_t e" using te s' by simp
  show "engine_ok (sim_process sim')" using N(3) s' by simp
  show "time_ok (sim_t sim')" using N(2) s' by simp
qed

lemma sim_loop_sorted:
  assumes lib: "lib_ok L"
  shows "engine_ok (sim_process sim) \<Longrightarrow> time_ok (sim_t sim) \<Longrightarrow>
     sorted_wrt dle (map ev_t (fst (sim_loop L fuel n sim)))
     \<and> (\<forall>e \<in> set (fst (sim_loop L fuel n sim)). dle (sim_t sim) (ev_t e))"
proof (induction n arbitrary: sim)
  case 0
  then show ?case by simp
next
  case (Suc n)
  show ?case
  proof (cases "sim_iter L fuel sim")
    case (Inl err)
    then show ?thesis by simp
  next
    case (Inr r)
    obtain e sim' where r: "r = (e, sim')" by (cases r)
    note I = sim_iter_ok [OF lib Suc.prems Inr [unfolded r]]
    from Suc.IH [OF I(3) I(4)] I(1,2)
    show ?thesis by (auto simp: Inr r split: prod.splits intro: dle_trans)
  qed
qed

lemma propose_ratio:
  assumes "intensity_ok st" and "propose L st current_time = (lb, ct, lc, u2, st2)"
  obtains r where "ddiv lc lb = Fin r" "0 \<le> r" "r \<le> 1"
proof -
  note T = twi_weighted_sum [OF assms(1)]
  obtain u1 g1 where u: "uniform01 L (h_rng st) = (u1, g1)" by (cases "uniform01 L (h_rng st)")
  let ?c = "dadd current_time (ddiv (dneg (dlog u1)) (total_weighted_intensity st))"
  let ?st1 = "decay_to (st\<lparr>h_rng := g1\<rparr>) ?c"
  obtain v2 g2 where u': "uniform01 L (h_rng ?st1) = (v2, g2)"
    by (cases "uniform01 L (h_rng ?st1)")
  have ok1: "intensity_ok (st\<lparr>h_rng := g1\<rparr>)" using assms(1) by simp
  have ws: "weighted_sum (st\<lparr>h_rng := g1\<rparr>) = weighted_sum st" by (simp add: weighted_sum_def)
  from decay_to_bounds [OF ok1, of ?c] obtain q where
    q: "total_weighted_intensity ?st1 = Fin q" "0 \<le> q" "q \<le> weighted_sum st"
    unfolding ws by blast
  have "propose L st current_time
      = (total_weighted_intensity st, ?c, total_weighted_intensity ?st1, v2, ?st1\<lparr>h_rng := g2\<rparr>)"
    using u u' by (simp add: propose_def Let_def twi_simps)
  with assms(2) have lb: "lb = Fin (weighted_sum st)" and lc: "lc = Fin q"
    using T(1) q(1) by auto
  have "ddiv lc lb = Fin (q / weighted_sum st)" using T(2) by (simp add: lb lc)
  moreover have "0 \<le> q / weighted_sum st" "q / weighted_sum st \<le> 1" using q T(2) by simp_all
  ultimately show ?thesis by (rule that)
qed

subsection \<open>Event times\<close>

text \<open>
  Claim C6. For every engine state reachable through construction (with parameters of
  the data model), \<open>set_weights\<close> and \<open>next\<close>, and for every time \<open>t\<close>, an event returned by
  \<open>next(t)\<close> has a time at or after \<open>t\<close>, and the state it leaves is reachable again; \<open>next\<close>
  returns as soon as a candidate passes the acceptance test. Consequently the events
  logged by the simulator loop, which sets its clock to each returned event's time, have
  non-decreasing times, none before the clock at which the loop started.
\<close>

theorem next_time_not_before:
  assumes "lib_ok L" and "reachable L st" and "time_ok t"
  shows "(\<forall>e st'. next_event L fuel st t = Some (e, st') \<longrightarrow> dle t (ev_t e) \<and> reachable L st')
     \<and> ((case propose L (decay_to st t) t of (lambda_bar, cand_time, lambda_cand, u2, st2) \<Rightarrow>
            dle u2 (ddiv lambda_cand lambda_bar)) \<longrightarrow>
         next_event L (Suc fuel) st t \<noteq> None)
     \<and> (\<forall>n sim. sim_process sim = st \<and> sim_t sim = t \<longrightarrow>
           sorted_wrt dle (map ev_t (fst (sim_loop L fuel n sim)))
           \<and> (\<forall>e \<in> set (fst (sim_loop L fuel n sim)). dle t (ev_t e)))"
proof (intro conjI allI impI)
  fix e st'
  assume n: "next_event L fuel st t = Some (e, st')"
  show "dle t (ev_t e)"
    by (rule next_event_ok(1) [OF assms(1) reachable_engine_ok [OF assms(1,2)] assms(3) n])
  show "reachable L st'" by (rule reachable.next_returned [OF assms(2,3) n])
next
  assume a: "case propose L (decay_to st t) t of (lambda_bar, cand_time, lambda_cand, u2, st2) \<Rightarrow>
            dle u2 (ddiv lambda_cand lambda_bar)"
  obtain lb ct lc u2 st2 where p: "propose L (decay_to st t) t = (lb, ct, lc, u2, st2)"
    by (cases "propose L (decay_to st t) t") auto
  have ok: "engine_ok (decay_to st t)"
    by (rule engine_ok_decay_to [OF reachable_engine_ok [OF assms(1,2)]
          time_ok_not_nan [OF assms(3)]])
  from a p have "dle u2 (ddiv lc lb)" by simp
  from next_loop_accepts [OF ok p this, of fuel]
  show "next_event L (Suc fuel) st t \<noteq> None" by (simp add: next_event_def)
next
  fix n and sim :: "'a Sim"
  assume s: "sim_process sim = st \<and> sim_t sim = t"
  have "engine_ok (sim_process sim)" "time_ok (sim_t sim)"
    using s reachable_engine_ok [OF assms(1,2)] assms(3) by simp_all
  from sim_loop_sorted [OF assms(1) this, of fuel n] s
  show "sorted_wrt dle (map ev_t (fst (sim_loop L fuel n sim)))"
    and "\<forall>e \<in> set (fst (sim_loop L fuel n sim)). dle t (ev_t e)" by simp_all
qed

lemma params_ok_main: "params_ok main_mu main_alpha main_beta"
  by (simp add: params_ok_def all_less_6 main_mu_def main_alpha_def main_beta_def replicate_6
        fin_pos_def fin_nonneg_def)

theorem next_time_not_before_witness:
  "lib_ok lowest_draws
   \<and> reachable lowest_draws
       \<lparr>h_dim = 6, h_mu = main_mu, h_alpha = main_alpha, h_beta = main_beta,
        h_s = replicate 6 (Fin 0), h_lambda = main_mu, h_w = replicate 6 (Fin 1),
        h_last_time = Fin 0, h_rng = (), h_qty_min = 5, h_qty_max = 50\<rparr>
   \<and> time_ok (Fin 0)
   \<and> next_event lowest_draws (Suc 0)
       \<lparr>h_dim = 6, h_mu = main_mu, h_alpha = main_alpha, h_beta = main_beta,
        h_s = replicate 6 (Fin 0), h_lambda = main_mu, h_w = replicate 6 (Fin 1),
        h_last_time = Fin 0, h_rng = (), h_qty_min = 5, h_qty_max = 50\<rparr> (Fin 0) \<noteq> None
   \<and> dle (Fin 0) (ev_t (fst (the (next_event lowest_draws (Suc 0)
       \<lparr>h_dim = 6, h_mu = main_mu, h_alpha = main_alpha, h_beta = main_beta,
        h_s = replicate 6 (Fin 0), h_lambda = main_mu, h_w = replicate 6 (Fin 1),
        h_last_time = Fin 0, h_rng = (), h_qty_min = 5, h_qty_max = 50\<rparr> (Fin 0)))))
   \<and> sorted_wrt dle (map ev_t (fst (sim_loop lowest_draws (Suc 0) 3
       \<lparr>sim_book = seed_book,
        sim_process = \<lparr>h_dim = 6, h_mu = main_mu, h_alpha = main_alpha, h_beta = main_beta,
          h_s = replicate 6 (Fin 0), h_lambda = main_mu, h_w = replicate 6 (Fin 1),
          h_last_time = Fin 0, h_rng = (), h_qty_min = 5, h_qty_max = 50\<rparr>,
        sim_rng = (), sim_t = Fin 0\<rparr>)))"
proof -
  let ?L = lowest_draws
  let ?st = "\<lparr>h_dim = 6, h_mu = main_mu, h_alpha = main_alpha, h_beta = main_beta,
        h_s = replicate 6 (Fin 0), h_lambda = main_mu, h_w = replicate 6 (Fin 1),
        h_last_time = Fin 0, h_rng = (), h_qty_min = 5, h_qty_max = 50\<rparr>"
  let ?sim = "\<lparr>sim_book = seed_book, sim_process = ?st, sim_rng = (), sim_t = Fin 0\<rparr>"
  have h1: "lib_ok ?L" by (simp add: lib_ok_def lowest_draws_def)
  have h2: "reachable ?L ?st"
    by (rule reachable.constructed [OF params_ok_main new_Hawkes_ok(1) [OF params_ok_main]])
  have h3: "time_ok (Fin 0)" by (simp add: time_ok_def)
  have d: "decay_to ?st (Fin 0) = ?st" by (simp add: decay_to_noop)
  obtain lb ct lc u2 st2 where p: "propose ?L ?st (Fin 0) = (lb, ct, lc, u2, st2)"
    by (cases "propose ?L ?st (Fin 0)") auto
  have u2: "u2 = Fin 0" using p by (auto simp: propose_def Let_def lowest_draws_def)
  from propose_ratio [OF intensity_ok_main p] obtain r where "ddiv lc lb = Fin r" "0 \<le> r"
    by blast
  then have h4: "case propose ?L (decay_to ?st (Fin 0)) (Fin 0) of
        (lambda_bar, cand_time, lambda_cand, u2, st2) \<Rightarrow> dle u2 (ddiv lambda_cand lambda_bar)"
    unfolding d p by (simp add: u2)
  note T = next_time_not_before [OF h1 h2 h3, of 0]
  from T h4 have r: "next_event ?L (Suc 0) ?st (Fin 0) \<noteq> None" by blast
  note T1 = next_time_not_before [OF h1 h2 h3, of "Suc 0"]
  from r obtain e st' where e: "next_event ?L (Suc 0) ?st (Fin 0) = Some (e, st')" by auto
  with T1 have t: "dle (Fin 0) (ev_t e)" by blast
  from T1 have s: "sorted_wrt dle (map ev_t (fst (sim_loop ?L (Suc 0) 3 ?sim)))"
    by (auto dest: spec [of _ 3] spec [of _ ?sim])
  from h1 h2 h3 r t s show ?thesis by (simp add: e)
qed

lemma consume_best_bid_Cons:
  "consume_best_bid (x # xs) q =
     (if sint q \<le> 0 then x # xs
      else if sint q < sint (snd (last (x # xs)))
      then butlast (x # xs) @ [(fst (last (x # xs)), snd (last (x # xs)) - q)]
      else consume_best_bid (butlast (x # xs)) (q - snd (last (x # xs))))"
  by (subst consume_best_bid.simps) auto

lemmas sim_eval =
  sim_body_def liveness_def place_def price_center_def tick_def script_def
  double_of_int_def dsub_def book_eval consume_best_bid_Cons

lemma seed_book_eq:
  "seed_book =
     \<lparr>tick_size = Fin (1 / 10),
      bids = [(Fin 99, 60), (Fin (991 / 10), 60), (Fin (992 / 10), 60), (Fin (993 / 10), 60),
              (Fin (994 / 10), 60), (Fin (995 / 10), 60), (Fin (996 / 10), 60),
              (Fin (997 / 10), 60), (Fin (998 / 10), 60), (Fin (999 / 10), 60)],
      asks = [(Fin (1001 / 10), 60), (Fin (1002 / 10), 60), (Fin (1003 / 10), 60),
              (Fin (1004 / 10), 60), (Fin (1005 / 10), 60), (Fin (1006 / 10), 60),
              (Fin (1007 / 10), 60), (Fin (1008 / 10), 60), (Fin (1009 / 10), 60),
              (Fin 101, 60)]\<rparr>"
  by (simp add: seed_book_def sim_eval cong: let_weak_cong)

subsection \<open>The safety net of the simulator loop\<close>

text \<open>
  Claim C3 says that after the safety net of the loop both sides of the book are
  non-empty, so that the reads of \<open>best_bid\<close> and \<open>best_ask\<close> are defined. The net injects
  its Add through \<open>apply\<close>, which runs a marketable Add against the opposite side instead of
  resting it. The run below starts from the seeded book of \<open>main\<close> and feeds the loop body
  fifteen events that \<open>next\<close> can return (Market sells and Ask adds of quantities between 5
  and 50, with the placement roll 0 for the two adds): the asks are improved down to 99.9
  and the bid side is sold out. In the sixteenth iteration the injected bid at
  \<open>price_center - tick = 99.9\<close> touches the best ask and is executed, the bid side stays
  empty, and the loop reads an empty optional.
\<close>

theorem safety_net_gap:
  "sim_bodies script seed_book [0, 0]
     [mk_event 1 Market Ask 0 50, mk_event 2 Market Ask 0 10,
      mk_event 3 Add Ask 0 10, mk_event 4 Add Ask 0 10,
      mk_event 5 Market Ask 0 50, mk_event 6 Market Ask 0 50, mk_event 7 Market Ask 0 50,
      mk_event 8 Market Ask 0 50, mk_event 9 Market Ask 0 50, mk_event 10 Market Ask 0 50,
      mk_event 11 Market Ask 0 50, mk_event 12 Market Ask 0 50, mk_event 13 Market Ask 0 50,
      mk_event 14 Market Ask 0 50, mk_event 15 Market Ask 0 40]
   = Inr (\<lparr>tick_size = Fin (1 / 10), bids = [],
           asks = [(Fin (999 / 10), 10), (Fin 100, 10), (Fin (1001 / 10), 60),
              (Fin (1002 / 10), 60), (Fin (1003 / 10), 60),
              (Fin (1004 / 10), 60), (Fin (1005 / 10), 60), (Fin (1006 / 10), 60),
              (Fin (1007 / 10), 60), (Fin (1008 / 10), 60), (Fin (1009 / 10), 60),
              (Fin 101, 60)]\<rparr>, [])
   \<and> liveness
        \<lparr>tick_size = Fin (1 / 10), bids = [],
           asks = [(Fin (999 / 10), 10), (Fin 100, 10), (Fin (1001 / 10), 60),
              (Fin (1002 / 10), 60), (Fin (1003 / 10), 60),
              (Fin (1004 / 10), 60), (Fin (1005 / 10), 60), (Fin (1006 / 10), 60),
              (Fin (1007 / 10), 60), (Fin (1008 / 10), 60), (Fin (1009 / 10), 60),
              (Fin 101, 60)]\<rparr> (Fin 16)
     = \<lparr>tick_size = Fin (1 / 10), bids = [],
           asks = [(Fin (1001 / 10), 30),
              (Fin (1002 / 10), 60), (Fin (1003 / 10), 60),
              (Fin (1004 / 10), 60), (Fin (1005 / 10), 60), (Fin (1006 / 10), 60),
              (Fin (1007 / 10), 60), (Fin (1008 / 10), 60), (Fin (1009 / 10), 60),
              (Fin 101, 60)]\<rparr>
   \<and> sim_body script
        \<lparr>tick_size = Fin (1 / 10), bids = [],
           asks = [(Fin (999 / 10), 10), (Fin 100, 10), (Fin (1001 / 10), 60),
              (Fin (1002 / 10), 60), (Fin (1003 / 10), 60),
              (Fin (1004 / 10), 60), (Fin (1005 / 10), 60), (Fin (1006 / 10), 60),
              (Fin (1007 / 10), 60), (Fin (1008 / 10), 60), (Fin (1009 / 10), 60),
              (Fin 101, 60)]\<rparr> (mk_event 16 Market Ask 0 5) []
     = Inl empty_optional_read"
  unfolding seed_book_eq by (simp add: sim_eval cong: let_weak_cong)

end
